theory Spec2Isabelle
  imports Main
begin

section \<open>Data model of \<open>app/routers/admin.py\<close>\<close>

text \<open>
  The router reconciles the users of one admin against a policy of allowed inbounds
  (\<open>sync_admin\<close>) and flips user statuses in bulk, restarting the local core and the
  connected nodes afterwards (\<open>disable_all_active_users\<close>,
  \<open>activate_all_disabled_users\<close>).

  Python dictionaries keyed by protocol are maps \<open>ProxyTypes \<rightharpoonup> 'v\<close>: dictionary
  equality ignores key order, and the key order of a dictionary is observed nowhere in
  these functions but in the order in which default settings are constructed.
  Tag sequences are lists, compared by \<open>==\<close> element by element.
\<close>

datatype ProxyTypes = VMess | VLESS | Trojan | Shadowsocks

datatype UserStatus = active | disabled | limited | expired | on_hold

text \<open>A settings payload is opaque to the router: it is copied and compared, never read.\<close>

type_synonym settings = string

type_synonym inbounds_dict = "ProxyTypes \<rightharpoonup> string list"

type_synonym proxies_dict = "ProxyTypes \<rightharpoonup> settings"

record ProxyInbound =
  tag :: string

record user =
  username :: string
  inbounds :: inbounds_dict
  proxies :: "(ProxyTypes \<times> settings) list"
  status :: UserStatus

record UserModify =
  modify_inbounds :: inbounds_dict
  modify_proxies :: proxies_dict

text \<open>
  Exceptions. The per-user block of \<open>sync_admin\<close> catches every one of them
  (\<open>except Exception\<close>); the bulk operations catch none.
\<close>

datatype error = ConstructorError | StoreError | NodeError | ConfigError | CoreError

text \<open>
  The collaborators of \<open>sync_admin\<close> that are not part of the router, as parameters:
  \<^item> \<open>set_union_list xs ys\<close> is \<open>list(set(xs).union(ys))\<close>; Python fixes its elements,
    not their order;
  \<^item> the four default constructors \<open>ShadowsocksSettings().dict()\<close>, ...;
  \<^item> \<open>update_user_raises u m\<close> says whether \<open>crud.update_user(db, u, UserModify(..))\<close>
    raises (validation of the patch or a store error: in both cases before anything is
    persisted);
  \<^item> \<open>xray_update_user u\<close> is \<open>xray.operations.update_user(u)\<close>.
\<close>

record env =
  set_union_list :: "string list \<Rightarrow> string list \<Rightarrow> string list"
  ShadowsocksSettings :: "error + settings"
  VMessSettings :: "error + settings"
  VLESSSettings :: "error + settings"
  TrojanSettings :: "error + settings"
  update_user_raises :: "user \<Rightarrow> UserModify \<Rightarrow> bool"
  xray_update_user :: "user \<Rightarrow> error + unit"

text \<open>What Python guarantees of \<open>list(set(xs).union(ys))\<close>: the elements of both, once each.\<close>

definition python_set_union :: "(string list \<Rightarrow> string list \<Rightarrow> string list) \<Rightarrow> bool" where
  "python_set_union f \<longleftrightarrow> (\<forall>xs ys. set (f xs ys) = set xs \<union> set ys \<and> distinct (f xs ys))"

section \<open>\<open>sync_admin\<close>: the computation of one user's new assignment\<close>

text \<open>Lines 212-215: \<open>{protocol: [inbound.tag for inbound in inbounds] for ...}\<close>.\<close>

definition allowed_inbounds :: "(ProxyTypes \<rightharpoonup> ProxyInbound list) \<Rightarrow> inbounds_dict" where
  "allowed_inbounds configs = (\<lambda>protocol. map_option (map tag) (configs protocol))"

text \<open>
  Lines 219-224: the first loop, over \<open>user.inbounds.items()\<close>. Each key is visited once
  and written at most once, so the loop is the map computed key by key.
\<close>

definition carried_inbounds :: "inbounds_dict \<Rightarrow> inbounds_dict \<Rightarrow> inbounds_dict" where
  "carried_inbounds allowed user_inbounds =
     (\<lambda>protocol.
        case user_inbounds protocol of
          None \<Rightarrow> None
        | Some tags \<Rightarrow>
            (case allowed protocol of
               None \<Rightarrow> None
             | Some allowed_tags \<Rightarrow>
                 (let new_tags = filter (\<lambda>t. t \<in> set allowed_tags) tags
                  in if new_tags \<noteq> [] then Some new_tags else None)))"

text \<open>Lines 226-232: the second loop, over \<open>allowed_inbounds.items()\<close>.\<close>

definition new_inbounds :: "env \<Rightarrow> inbounds_dict \<Rightarrow> inbounds_dict \<Rightarrow> inbounds_dict" where
  "new_inbounds e allowed user_inbounds =
     (let carried = carried_inbounds allowed user_inbounds
      in (\<lambda>protocol.
            case allowed protocol of
              None \<Rightarrow> carried protocol
            | Some tags \<Rightarrow>
                (case carried protocol of
                   Some existing_tags \<Rightarrow> Some (set_union_list e existing_tags tags)
                 | None \<Rightarrow> Some tags)))"

text \<open>
  \<open>{p.type.value: p.settings for p in user.proxies}\<close>: a later entry of the same
  protocol overwrites an earlier one. \<open>ProxyTypes\<close> is an enumeration of strings, so
  \<open>p.type.value\<close> and the member \<open>p.type\<close> are the same dictionary key.
\<close>

definition dict_of :: "(ProxyTypes \<times> settings) list \<Rightarrow> proxies_dict" where
  "dict_of ps = fold (\<lambda>(t, s) m. m(t \<mapsto> s)) ps Map.empty"

definition existing_proxies :: "user \<Rightarrow> proxies_dict" where
  "existing_proxies u = dict_of (proxies u)"

text \<open>Lines 234-238: the same comprehension, filtered by \<open>p.type.value in new_inbounds\<close>.\<close>

definition kept_proxies :: "inbounds_dict \<Rightarrow> user \<Rightarrow> proxies_dict" where
  "kept_proxies ni u = dict_of (filter (\<lambda>(t, s). ni t \<noteq> None) (proxies u))"

text \<open>
  Lines 242-249: the \<open>if\<close>/\<open>elif\<close> chain. It has no \<open>else\<close>: a protocol outside the four
  would get no settings (\<open>None\<close> here).
\<close>

definition default_for :: "env \<Rightarrow> ProxyTypes \<Rightarrow> (error + settings) option" where
  "default_for e protocol =
     (if protocol = Shadowsocks then Some (ShadowsocksSettings e)
      else if protocol = VMess then Some (VMessSettings e)
      else if protocol = VLESS then Some (VLESSSettings e)
      else if protocol = Trojan then Some (TrojanSettings e)
      else None)"

text \<open>
  Lines 240-249: the loop \<open>for protocol in new_inbounds\<close>, over the keys in the order
  given; the first constructor that raises ends it.
\<close>

fun fill_defaults :: "env \<Rightarrow> ProxyTypes list \<Rightarrow> proxies_dict \<Rightarrow> error + proxies_dict" where
  "fill_defaults e [] np = Inr np"
| "fill_defaults e (protocol # rest) np =
     (if np protocol = None then
        (case default_for e protocol of
           None \<Rightarrow> fill_defaults e rest np
         | Some (Inl err) \<Rightarrow> Inl err
         | Some (Inr s) \<Rightarrow> fill_defaults e rest (np(protocol \<mapsto> s)))
      else fill_defaults e rest np)"

text \<open>
  The keys of a dictionary, in a fixed order. The order in which Python visits them
  decides only which constructor's exception leaves the loop when several raise, and the
  handler of the block does not look at the exception.
\<close>

definition all_protocols :: "ProxyTypes list" where
  "all_protocols = [VMess, VLESS, Trojan, Shadowsocks]"

definition keys_of :: "(ProxyTypes \<rightharpoonup> 'v) \<Rightarrow> ProxyTypes list" where
  "keys_of m = filter (\<lambda>p. m p \<noteq> None) all_protocols"

definition new_proxies :: "env \<Rightarrow> inbounds_dict \<Rightarrow> user \<Rightarrow> error + proxies_dict" where
  "new_proxies e ni u = fill_defaults e (keys_of ni) (kept_proxies ni u)"

section \<open>\<open>sync_admin\<close>: the per-user block and the loop\<close>

text \<open>
  Modelled from the spec: \<open>crud.update_user\<close> (the user store, \<open>app/db/crud.py\<close>, which
  is not part of the router). The spec has it as \<open>update_user(user, patch) -> User\<close>,
  failing with a store error and atomic for the single user: when it raises nothing is
  persisted, when it returns the user carries the patch's inbounds and proxies, and a
  later \<open>db.rollback()\<close> does not undo it. The settings dictionary is stored as one
  proxy per protocol.
\<close>

definition proxies_of_dict :: "proxies_dict \<Rightarrow> (ProxyTypes \<times> settings) list" where
  "proxies_of_dict m =
     concat (map (\<lambda>p. case m p of None \<Rightarrow> [] | Some s \<Rightarrow> [(p, s)]) all_protocols)"

definition crud_update_user :: "env \<Rightarrow> user \<Rightarrow> UserModify \<Rightarrow> error + user" where
  "crud_update_user e u m =
     (if update_user_raises e u m then Inl StoreError
      else Inr (u\<lparr>inbounds := modify_inbounds m,
                  proxies := proxies_of_dict (modify_proxies m)\<rparr>))"

text \<open>The calls the block makes to its collaborators, in order.\<close>

datatype event = UpdateUser user UserModify | XrayUpdateUser user | Rollback

text \<open>
  Lines 219-258, the body of \<open>try\<close>: the user as the store holds it afterwards, the
  calls made, and the exception that left the body, if any.
\<close>

definition try_block :: "env \<Rightarrow> inbounds_dict \<Rightarrow> user \<Rightarrow> (user \<times> event list) \<times> error option" where
  "try_block e allowed u =
     (let ni = new_inbounds e allowed (inbounds u) in
      case new_proxies e ni u of
        Inl err \<Rightarrow> ((u, []), Some err)
      | Inr np \<Rightarrow>
          if ni \<noteq> inbounds u \<or> np \<noteq> existing_proxies u then
            (let m = \<lparr>modify_inbounds = ni, modify_proxies = np\<rparr> in
             case crud_update_user e u m of
               Inl err \<Rightarrow> ((u, [UpdateUser u m]), Some err)
             | Inr u' \<Rightarrow>
                 if status u' \<in> set [active, on_hold] then
                   (case xray_update_user e u' of
                      Inl err \<Rightarrow> ((u', [UpdateUser u m, XrayUpdateUser u']), Some err)
                    | Inr _ \<Rightarrow> ((u', [UpdateUser u m, XrayUpdateUser u']), None))
                 else ((u', [UpdateUser u m]), None))
          else ((u, []), None))"

text \<open>
  Lines 218-262, \<open>try\<close> with its handler: \<open>db.rollback()\<close> and \<open>unsuccessful += 1\<close>.
  The result is the stored user, the calls, and the increment of the counter.
\<close>

definition sync_user :: "env \<Rightarrow> inbounds_dict \<Rightarrow> user \<Rightarrow> user \<times> event list \<times> int" where
  "sync_user e allowed u =
     (case try_block e allowed u of
        ((u', calls), None) \<Rightarrow> (u', calls, 0)
      | ((u', calls), Some err) \<Rightarrow> (u', calls @ [Rollback], 1))"

text \<open>
  Lines 217-262, \<open>for user in users\<close>: the users as stored so far, the calls so far and
  the counter \<open>unsuccessful\<close> are threaded through.
\<close>

fun sync_loop ::
  "env \<Rightarrow> inbounds_dict \<Rightarrow> user list \<Rightarrow> user list \<times> event list \<times> int \<Rightarrow>
   user list \<times> event list \<times> int" where
  "sync_loop e allowed [] acc = acc"
| "sync_loop e allowed (u # us) (stored, calls, unsuccessful) =
     (case sync_user e allowed u of
        (u', calls', k) \<Rightarrow>
          sync_loop e allowed us (stored @ [u'], calls @ calls', unsuccessful + k))"

record sync_result =
  total :: int
  success :: int
  unsuccessful :: int
  stored_users :: "user list"
  calls :: "event list"

text \<open>
  Lines 209-268. \<open>users\<close> is the result of \<open>crud.get_users\<close>; beside the returned
  dictionary the result records the users as stored afterwards and the calls made.
\<close>

definition sync_admin :: "env \<Rightarrow> (ProxyTypes \<rightharpoonup> ProxyInbound list) \<Rightarrow> user list \<Rightarrow> sync_result" where
  "sync_admin e configs users =
     (case sync_loop e (allowed_inbounds configs) users ([], [], 0) of
        (stored, cs, n) \<Rightarrow>
          \<lparr>total = int (length users),
           success = int (length users) - n,
           unsuccessful = n,
           stored_users = stored,
           calls = cs\<rparr>)"

section \<open>The bulk status operations\<close>

text \<open>The startup configuration is opaque to the router: it is built and passed on.\<close>

type_synonym startup_config = string

text \<open>
  The registry \<open>xray.nodes\<close> is a dictionary from node ids to node objects, and the
  objects are shared: \<open>list(xray.nodes.items())\<close> copies the pairs of an id and a
  reference, not the objects, and \<open>node.connected\<close> reads the object as it is when it
  is read. So the objects live in a store of their own, addressed by references.
\<close>

type_synonym node_ref = nat

record node =
  connected :: bool

datatype fleet_call =
  DisableAllActiveUsers
| ActivateAllDisabledUsers
| IncludeDbUsers
| CoreRestart startup_config
| RestartNode nat startup_config

text \<open>
  The collaborators of the bulk operations, as parameters: the two bulk mutations of the
  store, \<open>xray.config.include_db_users()\<close> (a function of the store),
  \<open>xray.core.restart\<close>, whether the restart of a node fails, and what happens to the
  registry and to the node objects while \<open>restart_node\<close> runs for a node (the restart
  itself and the connection events that arrive meanwhile).
\<close>

record fleet_env =
  crud_disable_all_active_users :: "user list \<Rightarrow> error + user list"
  crud_activate_all_disabled_users :: "user list \<Rightarrow> error + user list"
  include_db_users :: "user list \<Rightarrow> error + startup_config"
  core_restart :: "startup_config \<Rightarrow> error + unit"
  node_restart_fails :: "nat \<Rightarrow> startup_config \<Rightarrow> bool"
  node_events ::
    "nat \<Rightarrow> startup_config \<Rightarrow> (nat \<times> node_ref) list \<times> (node_ref \<Rightarrow> node) \<Rightarrow>
     (nat \<times> node_ref) list \<times> (node_ref \<Rightarrow> node)"

text \<open>No \<open>connected\<close> flag changes while a node is restarted.\<close>

definition flags_stable :: "fleet_env \<Rightarrow> bool" where
  "flags_stable fe \<longleftrightarrow>
     (\<forall>node_id cfg registry objects ref.
        connected (snd (node_events fe node_id cfg (registry, objects)) ref) =
        connected (objects ref))"

text \<open>
  The state the bulk operations act on: the store, the registry (the items of
  \<open>xray.nodes\<close> in order) and the node objects, the configuration the local core and
  each node run since their last successful restart, the node failures recorded, and
  the calls made so far.
\<close>

record fleet =
  db :: "user list"
  core_config :: "startup_config option"
  xray_nodes :: "(nat \<times> node_ref) list"
  node_objects :: "node_ref \<Rightarrow> node"
  node_configs :: "nat \<rightharpoonup> startup_config"
  node_errors :: "nat list"
  fleet_calls :: "fleet_call list"

text \<open>
  Modelled from the spec: \<open>xray.operations.restart_node\<close> (\<open>app/xray/operations.py\<close>,
  which is not part of the router). The spec gives the node transport as
  \<open>restart(node_id) -> ok|error\<close> and a failure of one node as non-fatal, recorded or
  skipped: the call returns in both cases, a failure is recorded and nothing is raised
  to the caller. While the call runs the registry and the node objects change as
  \<open>node_events\<close> says.
\<close>

definition restart_node :: "fleet_env \<Rightarrow> nat \<Rightarrow> startup_config \<Rightarrow> fleet \<Rightarrow> fleet" where
  "restart_node fe node_id cfg w =
     (case node_events fe node_id cfg (xray_nodes w, node_objects w) of
        (registry, objects) \<Rightarrow>
          (if node_restart_fails fe node_id cfg
           then w\<lparr>xray_nodes := registry, node_objects := objects,
                   node_errors := node_errors w @ [node_id],
                   fleet_calls := fleet_calls w @ [RestartNode node_id cfg]\<rparr>
           else w\<lparr>xray_nodes := registry, node_objects := objects,
                   node_configs := (node_configs w)(node_id \<mapsto> cfg),
                   fleet_calls := fleet_calls w @ [RestartNode node_id cfg]\<rparr>))"

text \<open>
  Lines 148-150 and 163-165: \<open>for node_id, node in list(xray.nodes.items())\<close>, over the
  copied items. \<open>if node.connected\<close> reads the flag of the node object when the node's
  turn comes, in the state the earlier restarts have left.
\<close>

fun restart_connected_nodes ::
  "fleet_env \<Rightarrow> startup_config \<Rightarrow> (nat \<times> node_ref) list \<Rightarrow> fleet \<Rightarrow> fleet" where
  "restart_connected_nodes fe cfg [] w = w"
| "restart_connected_nodes fe cfg ((node_id, ref) # rest) w =
     (if connected (node_objects w ref)
      then restart_connected_nodes fe cfg rest (restart_node fe node_id cfg w)
      else restart_connected_nodes fe cfg rest w)"

text \<open>
  Lines 146-150, and again lines 161-165: the same four statements in both operations
  (the spec's \<open>rebuild_and_restart_all\<close>). An exception of the configuration builder or
  of the local core leaves the function, and the request, at once. The items of the
  registry are copied when the loop starts, after the local core has restarted.
\<close>

definition rebuild_and_restart_all :: "fleet_env \<Rightarrow> fleet \<Rightarrow> error option \<times> fleet" where
  "rebuild_and_restart_all fe w =
     (case include_db_users fe (db w) of
        Inl err \<Rightarrow> (Some err, w\<lparr>fleet_calls := fleet_calls w @ [IncludeDbUsers]\<rparr>)
      | Inr startup \<Rightarrow>
          (case core_restart fe startup of
             Inl err \<Rightarrow>
               (Some err,
                w\<lparr>fleet_calls := fleet_calls w @ [IncludeDbUsers, CoreRestart startup]\<rparr>)
           | Inr _ \<Rightarrow>
               (let w' = w\<lparr>core_config := Some startup,
                            fleet_calls := fleet_calls w @ [IncludeDbUsers, CoreRestart startup]\<rparr>
                in (None, restart_connected_nodes fe startup (xray_nodes w') w'))))"

text \<open>Lines 140-151. The result is the response, or the exception that ended the request.\<close>

definition disable_all_active_users :: "fleet_env \<Rightarrow> fleet \<Rightarrow> (error + string) \<times> fleet" where
  "disable_all_active_users fe w =
     (case crud_disable_all_active_users fe (db w) of
        Inl err \<Rightarrow> (Inl err, w\<lparr>fleet_calls := fleet_calls w @ [DisableAllActiveUsers]\<rparr>)
      | Inr db' \<Rightarrow>
          (case rebuild_and_restart_all fe
                  (w\<lparr>db := db', fleet_calls := fleet_calls w @ [DisableAllActiveUsers]\<rparr>) of
             (Some err, w') \<Rightarrow> (Inl err, w')
           | (None, w') \<Rightarrow> (Inr ''Users successfully disabled'', w')))"


section \<open>Concrete inputs\<close>

text \<open>
  The scenario of the spec: the policy allows VMess on two tags; the user has one of
  them, and a Trojan inbound the policy does not name. Every collaborator succeeds, and
  a set is listed in the order in which its elements were last inserted.
\<close>

definition env0 :: env where
  "env0 = \<lparr>set_union_list = (\<lambda>xs ys. remdups (xs @ ys)),
           ShadowsocksSettings = Inr ''shadowsocks-default'',
           VMessSettings = Inr ''vmess-default'',
           VLESSSettings = Inr ''vless-default'',
           TrojanSettings = Inr ''trojan-default'',
           update_user_raises = (\<lambda>u m. False),
           xray_update_user = (\<lambda>u. Inr ())\<rparr>"

definition policy0 :: "ProxyTypes \<rightharpoonup> ProxyInbound list" where
  "policy0 = [VMess \<mapsto> [\<lparr>tag = ''tag1''\<rparr>, \<lparr>tag = ''tag2''\<rparr>]]"

definition alice :: user where
  "alice = \<lparr>username = ''alice'',
            inbounds = [VMess \<mapsto> [''tag1''], Trojan \<mapsto> [''tagX'']],
            proxies = [(VMess, ''vmess-alice''), (Trojan, ''trojan-alice'')],
            status = active\<rparr>"

text \<open>
  A disabled user with no inbounds and no proxies yet, and a user on hold with a VLESS
  inbound only.
\<close>

definition bob :: user where
  "bob = \<lparr>username = ''bob'', inbounds = Map.empty, proxies = [], status = disabled\<rparr>"

definition carol :: user where
  "carol = \<lparr>username = ''carol'',
            inbounds = [VLESS \<mapsto> [''tagV'']],
            proxies = [(VLESS, ''vless-carol'')],
            status = on_hold\<rparr>"

text \<open>
  Python lists a set of strings in the order of their hashes, which changes from one
  process to the next: here \<open>tag2\<close> comes before \<open>tag1\<close>.
\<close>

definition env_hash :: env where
  "env_hash = env0\<lparr>set_union_list := (\<lambda>xs ys. rev (remdups (xs @ ys)))\<rparr>"

text \<open>A policy that names the same tag twice.\<close>

definition policy_dup :: "ProxyTypes \<rightharpoonup> ProxyInbound list" where
  "policy_dup = [VMess \<mapsto> [\<lparr>tag = ''tag1''\<rparr>, \<lparr>tag = ''tag1''\<rparr>]]"

text \<open>The store rejects every update of \<open>bob\<close>; the push to the nodes raises.\<close>

definition env_store_fails :: env where
  "env_store_fails = env0\<lparr>update_user_raises := (\<lambda>u m. username u = ''bob'')\<rparr>"

definition env_push_fails :: env where
  "env_push_fails = env0\<lparr>xray_update_user := (\<lambda>u. Inl NodeError)\<rparr>"

text \<open>
  The store rejects every update. A user whose proxies already name a protocol that its
  inbounds do not.
\<close>

definition env_store_down :: env where
  "env_store_down = env0\<lparr>update_user_raises := (\<lambda>u m. True)\<rparr>"

definition gus :: user where
  "gus = \<lparr>username = ''gus'',
          inbounds = [VMess \<mapsto> [''tag1'']],
          proxies = [(VMess, ''vmess-gus''), (Trojan, ''trojan-gus'')],
          status = active\<rparr>"

text \<open>
  A fleet of three connected nodes, and the same fleet with a fourth, disconnected
  node. The store flips the statuses, the configuration lists the names of the users
  that are active or on hold, the local core restarts, the restart of node 2 fails, and
  nothing else happens to the nodes meanwhile.
\<close>

definition fleet_env0 :: fleet_env where
  "fleet_env0 =
     \<lparr>crud_disable_all_active_users =
        (\<lambda>us. Inr (map (\<lambda>u. if status u = active \<or> status u = on_hold
                               then u\<lparr>status := disabled\<rparr> else u) us)),
      crud_activate_all_disabled_users =
        (\<lambda>us. Inr (map (\<lambda>u. if status u = disabled then u\<lparr>status := active\<rparr> else u) us)),
      include_db_users =
        (\<lambda>us. Inr (concat (map username
                       (filter (\<lambda>u. status u = active \<or> status u = on_hold) us)))),
      core_restart = (\<lambda>cfg. Inr ()),
      node_restart_fails = (\<lambda>node_id cfg. node_id = 2),
      node_events = (\<lambda>node_id cfg s. s)\<rparr>"

definition fleet_env_core_fails :: fleet_env where
  "fleet_env_core_fails = fleet_env0\<lparr>core_restart := (\<lambda>cfg. Inl CoreError)\<rparr>"

definition fleet3 :: fleet where
  "fleet3 = \<lparr>db = [alice, bob, carol], core_config = None,
             xray_nodes = [(1, 101), (2, 102), (3, 103)],
             node_objects = (\<lambda>ref. \<lparr>connected = True\<rparr>),
             node_configs = Map.empty, node_errors = [], fleet_calls = []\<rparr>"

definition fleet4 :: fleet where
  "fleet4 = fleet3\<lparr>xray_nodes := [(1, 101), (2, 102), (3, 103), (4, 104)],
                   node_objects := (\<lambda>ref. \<lparr>connected = (ref \<noteq> 104)\<rparr>)\<rparr>"


section \<open>Dictionaries\<close>

lemma ProxyTypes_fun_eq:
  "f = g \<longleftrightarrow>
   f VMess = g VMess \<and> f VLESS = g VLESS \<and> f Trojan = g Trojan \<and> f Shadowsocks = g Shadowsocks"
proof
  assume r: "f VMess = g VMess \<and> f VLESS = g VLESS \<and> f Trojan = g Trojan \<and>
    f Shadowsocks = g Shadowsocks"
  show "f = g"
  proof (rule ext)
    fix p show "f p = g p" using r by (cases p) simp_all
  qed
qed simp

lemma set_all_protocols: "p \<in> set all_protocols"
  by (cases p) (simp_all add: all_protocols_def)

lemma set_keys_of: "p \<in> set (keys_of m) \<longleftrightarrow> m p \<noteq> None"
  by (simp add: keys_of_def set_all_protocols)

lemma fold_upd_map_of:
  "fold (\<lambda>(t, s) m. m(t \<mapsto> s)) ps m = m ++ map_of (rev ps)"
  by (induction ps arbitrary: m)
    (auto simp: map_add_upd_left map_add_def fun_eq_iff split: option.splits)

lemma dict_of_map_of: "dict_of ps = map_of (rev ps)"
  by (simp add: dict_of_def fold_upd_map_of)

lemma map_of_filter_key:
  "map_of (filter (\<lambda>(t, s). P t) ps) k = (if P k then map_of ps k else None)"
  by (induction ps) auto

lemma dict_of_proxies_of_dict: "dict_of (proxies_of_dict m) = m"
proof (rule ext)
  fix p show "dict_of (proxies_of_dict m) p = m p"
    by (cases p)
      (auto simp: dict_of_map_of proxies_of_dict_def all_protocols_def split: option.splits)
qed

section \<open>The new inbounds\<close>

lemma dom_allowed_inbounds: "dom (allowed_inbounds configs) = dom configs"
  by (auto simp: allowed_inbounds_def)

lemma carried_inbounds_Some:
  "carried_inbounds al ui p = Some ts \<Longrightarrow>
   \<exists>a. al p = Some a \<and> set ts \<subseteq> set a \<and> ts \<noteq> []"
  by (auto simp: carried_inbounds_def Let_def split: option.splits if_splits)

lemma new_inbounds_dom: "dom (new_inbounds e al ui) = dom al"
  by (auto simp: new_inbounds_def Let_def dom_def split: option.splits
      dest: carried_inbounds_Some)

lemma new_inbounds_policy:
  assumes "python_set_union (set_union_list e)" and "al p = Some tags"
  shows "\<exists>ts. new_inbounds e al ui p = Some ts \<and> set ts = set tags"
  using assms
  by (auto simp: new_inbounds_def Let_def python_set_union_def split: option.splits
      dest!: carried_inbounds_Some)

lemma python_set_union_env0: "python_set_union (set_union_list env0)"
  by (simp add: python_set_union_def env0_def)

section \<open>The new proxies\<close>

lemma kept_proxies_lookup:
  "kept_proxies ni u p = (if ni p \<noteq> None then existing_proxies u p else None)"
  by (simp add: kept_proxies_def existing_proxies_def dict_of_map_of rev_filter
      map_of_filter_key)

lemma default_for_total: "default_for e p \<noteq> None"
  by (cases p) (simp_all add: default_for_def)

lemma fill_defaults_lookup:
  "fill_defaults e ps np = Inr np' \<Longrightarrow>
   np' p = (if np p = None \<and> p \<in> set ps
            then (case default_for e p of Some (Inr s) \<Rightarrow> Some s | _ \<Rightarrow> None)
            else np p)"
  by (induction ps arbitrary: np) (auto split: if_splits option.splits sum.splits)

lemma fill_defaults_keeps:
  "fill_defaults e ps np = Inr np' \<Longrightarrow> np p = Some s \<Longrightarrow> np' p = Some s"
  by (drule fill_defaults_lookup [where p = p]) simp

lemma fill_defaults_filled:
  "fill_defaults e ps np = Inr np' \<Longrightarrow> p \<in> set ps \<Longrightarrow> np p = None \<Longrightarrow>
   \<exists>s. default_for e p = Some (Inr s) \<and> np' p = Some s"
proof (induction ps arbitrary: np)
  case Nil
  then show ?case by simp
next
  case (Cons a ps)
  show ?case
  proof (cases "a = p")
    case True
    with Cons.prems obtain s where d: "default_for e p = Some (Inr s)"
      and r: "fill_defaults e ps (np(p \<mapsto> s)) = Inr np'"
      by (auto split: option.splits sum.splits simp: default_for_total)
    from fill_defaults_keeps [OF r, of p s] d show ?thesis by simp
  next
    case False
    with Cons.prems have "p \<in> set ps" by simp
    moreover from Cons.prems False obtain np1
      where "fill_defaults e ps np1 = Inr np'" "np1 p = None"
      by (auto split: if_splits option.splits sum.splits)
    ultimately show ?thesis using Cons.IH by blast
  qed
qed

lemma new_proxies_dom:
  assumes "new_proxies e ni u = Inr np"
  shows "dom np = dom ni"
proof (rule set_eqI)
  fix p
  show "p \<in> dom np \<longleftrightarrow> p \<in> dom ni"
  proof (cases "ni p")
    case None
    with fill_defaults_lookup [OF assms [unfolded new_proxies_def], of p]
    show ?thesis by (auto simp: set_keys_of kept_proxies_lookup)
  next
    case (Some ts)
    show ?thesis
    proof (cases "kept_proxies ni u p")
      case None
      with Some fill_defaults_filled [OF assms [unfolded new_proxies_def], of p]
      show ?thesis by (auto simp: set_keys_of)
    next
      case (Some s)
      with \<open>ni p = Some ts\<close> fill_defaults_keeps [OF assms [unfolded new_proxies_def], of p s]
      show ?thesis by auto
    qed
  qed
qed

section \<open>The loop\<close>

lemma sync_loop_map:
  "sync_loop e al us (st, cs, n) =
     (st @ map (\<lambda>u. fst (sync_user e al u)) us,
      cs @ concat (map (\<lambda>u. fst (snd (sync_user e al u))) us),
      n + sum_list (map (\<lambda>u. snd (snd (sync_user e al u))) us))"
  by (induction us arbitrary: st cs n) (auto split: prod.splits)

lemma stored_users_sync_admin:
  "stored_users (sync_admin e configs users) =
     map (\<lambda>u. fst (sync_user e (allowed_inbounds configs) u)) users"
  by (simp add: sync_admin_def sync_loop_map)


text \<open>The paths through the per-user block.\<close>

lemma calls_sync_admin:
  "calls (sync_admin e configs users) =
     concat (map (\<lambda>u. fst (snd (sync_user e (allowed_inbounds configs) u))) users)"
  by (simp add: sync_admin_def sync_loop_map)

lemma unsuccessful_sync_admin:
  "unsuccessful (sync_admin e configs users) =
     sum_list (map (\<lambda>u. snd (snd (sync_user e (allowed_inbounds configs) u))) users)"
  by (simp add: sync_admin_def sync_loop_map)

lemma sync_user_ctor_raises:
  assumes "new_proxies e (new_inbounds e al (inbounds u)) u = Inl err"
  shows "sync_user e al u = (u, [Rollback], 1)"
  using assms unfolding sync_user_def try_block_def Let_def by simp

lemma sync_user_no_change:
  assumes "new_proxies e (new_inbounds e al (inbounds u)) u = Inr np"
    and "\<not> (new_inbounds e al (inbounds u) \<noteq> inbounds u \<or> np \<noteq> existing_proxies u)"
  shows "sync_user e al u = (u, [], 0)"
  unfolding sync_user_def try_block_def Let_def assms(1) sum.case if_not_P [OF assms(2)]
  by simp

lemma sync_user_store_raises:
  assumes "new_proxies e (new_inbounds e al (inbounds u)) u = Inr np"
    and "new_inbounds e al (inbounds u) \<noteq> inbounds u \<or> np \<noteq> existing_proxies u"
    and "update_user_raises e u
           \<lparr>modify_inbounds = new_inbounds e al (inbounds u), modify_proxies = np\<rparr>"
  shows "sync_user e al u =
           (u, [UpdateUser u \<lparr>modify_inbounds = new_inbounds e al (inbounds u),
                               modify_proxies = np\<rparr>, Rollback], 1)"
  unfolding sync_user_def try_block_def Let_def assms(1) sum.case if_P [OF assms(2)]
    crud_update_user_def if_P [OF assms(3)]
  by simp

lemma sync_user_written:
  assumes "new_proxies e (new_inbounds e al (inbounds u)) u = Inr np"
    and "new_inbounds e al (inbounds u) \<noteq> inbounds u \<or> np \<noteq> existing_proxies u"
    and "\<not> update_user_raises e u
           \<lparr>modify_inbounds = new_inbounds e al (inbounds u), modify_proxies = np\<rparr>"
  shows "sync_user e al u =
     (let m = \<lparr>modify_inbounds = new_inbounds e al (inbounds u), modify_proxies = np\<rparr>;
          u' = u\<lparr>inbounds := new_inbounds e al (inbounds u), proxies := proxies_of_dict np\<rparr>
      in if status u = active \<or> status u = on_hold
         then (case xray_update_user e u' of
                 Inl err \<Rightarrow> (u', [UpdateUser u m, XrayUpdateUser u', Rollback], 1)
               | Inr _ \<Rightarrow> (u', [UpdateUser u m, XrayUpdateUser u'], 0))
         else (u', [UpdateUser u m], 0))"
  unfolding sync_user_def try_block_def Let_def assms(1) sum.case if_P [OF assms(2)]
    crud_update_user_def if_not_P [OF assms(3)]
  by (simp split: sum.splits)

lemma sync_admin_single:
  "sync_admin e configs [u] =
     (case sync_user e (allowed_inbounds configs) u of
        (u', cs, k) \<Rightarrow> \<lparr>total = 1, success = 1 - k, unsuccessful = k,
                         stored_users = [u'], calls = cs\<rparr>)"
  by (simp add: sync_admin_def split: prod.splits)

text \<open>
  The user as stored after its block: the block raises before anything is written
  exactly when a default constructor raises, or a write is due and the store raises.
\<close>

lemma sync_user_stored:
  "fst (sync_user e al u) =
     (case new_proxies e (new_inbounds e al (inbounds u)) u of
        Inl err \<Rightarrow> u
      | Inr np \<Rightarrow>
          if (new_inbounds e al (inbounds u) \<noteq> inbounds u \<or> np \<noteq> existing_proxies u) \<and>
             \<not> update_user_raises e u
                 \<lparr>modify_inbounds = new_inbounds e al (inbounds u), modify_proxies = np\<rparr>
          then u\<lparr>inbounds := new_inbounds e al (inbounds u), proxies := proxies_of_dict np\<rparr>
          else u)"
proof (cases "new_proxies e (new_inbounds e al (inbounds u)) u")
  case (Inl err)
  then show ?thesis by (simp add: sync_user_ctor_raises)
next
  case (Inr np)
  let ?m = "\<lparr>modify_inbounds = new_inbounds e al (inbounds u), modify_proxies = np\<rparr>"
  show ?thesis
  proof (cases "new_inbounds e al (inbounds u) \<noteq> inbounds u \<or> np \<noteq> existing_proxies u")
    case False
    then show ?thesis using Inr by (simp add: sync_user_no_change [OF Inr False])
  next
    case True
    show ?thesis
    proof (cases "update_user_raises e u ?m")
      case raises: True
      show ?thesis using Inr raises by (simp add: sync_user_store_raises [OF Inr True raises])
    next
      case ok: False
      show ?thesis using Inr True ok
        by (simp add: sync_user_written [OF Inr True ok] Let_def split: sum.splits)
    qed
  qed
qed

lemma sync_user_raised_before_write:
  assumes "case new_proxies e (new_inbounds e al (inbounds u)) u of
             Inl err \<Rightarrow> True
           | Inr np \<Rightarrow>
               (new_inbounds e al (inbounds u) \<noteq> inbounds u \<or> np \<noteq> existing_proxies u) \<and>
               update_user_raises e u
                 \<lparr>modify_inbounds = new_inbounds e al (inbounds u), modify_proxies = np\<rparr>"
  shows "fst (sync_user e al u) = u \<and> snd (snd (sync_user e al u)) = 1"
proof (cases "new_proxies e (new_inbounds e al (inbounds u)) u")
  case (Inl err)
  then show ?thesis by (simp add: sync_user_ctor_raises)
next
  case (Inr np)
  with assms show ?thesis by (simp add: sync_user_store_raises [OF Inr])
qed

lemma sync_user_not_raised_before_write:
  assumes "\<not> (case new_proxies e (new_inbounds e al (inbounds u)) u of
             Inl err \<Rightarrow> True
           | Inr np \<Rightarrow>
               (new_inbounds e al (inbounds u) \<noteq> inbounds u \<or> np \<noteq> existing_proxies u) \<and>
               update_user_raises e u
                 \<lparr>modify_inbounds = new_inbounds e al (inbounds u), modify_proxies = np\<rparr>)"
  shows "inbounds (fst (sync_user e al u)) = new_inbounds e al (inbounds u) \<and>
         new_proxies e (new_inbounds e al (inbounds u)) u =
           Inr (existing_proxies (fst (sync_user e al u)))"
proof (cases "new_proxies e (new_inbounds e al (inbounds u)) u")
  case (Inl err)
  with assms show ?thesis by simp
next
  case (Inr np)
  show ?thesis
  proof (cases "new_inbounds e al (inbounds u) \<noteq> inbounds u \<or> np \<noteq> existing_proxies u")
    case False
    then show ?thesis using Inr by (simp add: sync_user_stored)
  next
    case True
    with assms Inr have "\<not> update_user_raises e u
        \<lparr>modify_inbounds = new_inbounds e al (inbounds u), modify_proxies = np\<rparr>"
      by auto
    with True Inr show ?thesis
      by (simp add: sync_user_stored existing_proxies_def dict_of_proxies_of_dict)
  qed
qed

section \<open>Properties of \<open>sync_admin\<close>\<close>



lemma sync_user_proxies:
  assumes "new_proxies e (new_inbounds e al (inbounds u)) u = Inr np"
  shows "existing_proxies (fst (sync_user e al u)) = np \<or>
         fst (sync_user e al u) = u \<and> snd (snd (sync_user e al u)) = 1"
  using assms
  by (auto simp: sync_user_def try_block_def Let_def crud_update_user_def existing_proxies_def
      dict_of_proxies_of_dict split: sum.splits)

lemma sync_user_unchanged_or_patched:
  "fst (sync_user e al u) = u \<and> snd (snd (sync_user e al u)) = 1 \<or>
   inbounds (fst (sync_user e al u)) = new_inbounds e al (inbounds u) \<and>
   new_proxies e (new_inbounds e al (inbounds u)) u = Inr (existing_proxies (fst (sync_user e al u)))"
  by (auto simp: sync_user_def try_block_def Let_def crud_update_user_def existing_proxies_def
      dict_of_proxies_of_dict split: sum.splits)

text \<open>
  C2, as amended. For every user for whom no default constructor raises and the store
  update, when one is due, does not raise, every (protocol, tag) pair of the user's
  inbounds after sync is a pair of the policy supplied to that call. A user for whom one
  of them raises is stored unchanged, with whatever pairs it had, and is counted as
  unsuccessful. The inbounds that sync computes hold only pairs of the policy in
  every case.
\<close>

theorem sync_policy_containment:
  assumes "python_set_union (set_union_list e)" and "i < length users"
  shows "let u = users ! i;
             al = allowed_inbounds configs;
             ni = new_inbounds e al (inbounds u);
             u' = stored_users (sync_admin e configs users) ! i;
             raised_before_write =
               (case new_proxies e ni u of
                  Inl err \<Rightarrow> True
                | Inr np \<Rightarrow>
                    (ni \<noteq> inbounds u \<or> np \<noteq> existing_proxies u) \<and>
                    update_user_raises e u \<lparr>modify_inbounds = ni, modify_proxies = np\<rparr>)
         in (\<not> raised_before_write \<longrightarrow>
               (\<forall>p ts t. inbounds u' p = Some ts \<and> t \<in> set ts \<longrightarrow>
                  (\<exists>ibs. configs p = Some ibs \<and> t \<in> tag ` set ibs))) \<and>
            (raised_before_write \<longrightarrow>
               u' = u \<and> snd (snd (sync_user e al u)) = 1) \<and>
            (\<forall>p ts t. ni p = Some ts \<and> t \<in> set ts \<longrightarrow>
               (\<exists>ibs. configs p = Some ibs \<and> t \<in> tag ` set ibs))"
proof -
  let ?al = "allowed_inbounds configs"
  let ?u = "users ! i"
  let ?ni = "new_inbounds e ?al (inbounds ?u)"
  let ?raised = "case new_proxies e ?ni ?u of
                  Inl err \<Rightarrow> True
                | Inr np \<Rightarrow>
                    (?ni \<noteq> inbounds ?u \<or> np \<noteq> existing_proxies ?u) \<and>
                    update_user_raises e ?u \<lparr>modify_inbounds = ?ni, modify_proxies = np\<rparr>"
  have c: "\<exists>ibs. configs p = Some ibs \<and> t \<in> tag ` set ibs"
    if "?ni p = Some ts" "t \<in> set ts" for p ts t
  proof -
    from that(1) have "p \<in> dom configs"
      using new_inbounds_dom [of e ?al "inbounds ?u"] by (auto simp: dom_allowed_inbounds)
    then obtain ibs where ibs: "configs p = Some ibs" by auto
    then have "?al p = Some (map tag ibs)" by (simp add: allowed_inbounds_def)
    with new_inbounds_policy [of e ?al p "map tag ibs" "inbounds ?u"] assms(1) that
    have "t \<in> set (map tag ibs)" by auto
    with ibs show ?thesis by auto
  qed
  have s: "stored_users (sync_admin e configs users) ! i = fst (sync_user e ?al ?u)"
    using assms(2) by (simp add: stored_users_sync_admin)
  have a: "inbounds (fst (sync_user e ?al ?u)) = ?ni" if "\<not> ?raised"
    using sync_user_not_raised_before_write [OF that] by simp
  have b: "fst (sync_user e ?al ?u) = ?u \<and> snd (snd (sync_user e ?al ?u)) = 1" if "?raised"
    using sync_user_raised_before_write [OF that] .
  show ?thesis
    unfolding Let_def s
  proof (intro conjI impI)
    assume r: "\<not> ?raised"
    show "\<forall>p ts t. inbounds (fst (sync_user e ?al ?u)) p = Some ts \<and> t \<in> set ts \<longrightarrow>
        (\<exists>ibs. configs p = Some ibs \<and> t \<in> tag ` set ibs)"
      unfolding a [OF r] using c by blast
  next
    assume r: "?raised"
    from b [OF r] show "fst (sync_user e ?al ?u) = ?u" by simp
    from b [OF r] show "snd (snd (sync_user e ?al ?u)) = 1" by simp
  next
    show "\<forall>p ts t. ?ni p = Some ts \<and> t \<in> set ts \<longrightarrow>
        (\<exists>ibs. configs p = Some ibs \<and> t \<in> tag ` set ibs)"
      using c by blast
  qed
qed

text \<open>
  C3, as amended. For every user for whom no default constructor raises and the store
  update, when one is due, does not raise, the protocols of the user's proxies after sync
  are exactly the protocols of its inbounds. A user for whom one of them raises is stored
  unchanged, with whatever keys it had, and is counted as unsuccessful. The settings
  dictionary that sync builds has exactly the protocols of the new inbounds as keys.
\<close>

theorem sync_settings_complete:
  assumes "i < length users"
  shows "let u = users ! i;
             al = allowed_inbounds configs;
             ni = new_inbounds e al (inbounds u);
             u' = stored_users (sync_admin e configs users) ! i;
             raised_before_write =
               (case new_proxies e ni u of
                  Inl err \<Rightarrow> True
                | Inr np \<Rightarrow>
                    (ni \<noteq> inbounds u \<or> np \<noteq> existing_proxies u) \<and>
                    update_user_raises e u \<lparr>modify_inbounds = ni, modify_proxies = np\<rparr>)
         in (\<not> raised_before_write \<longrightarrow>
               dom (existing_proxies u') = dom (inbounds u')) \<and>
            (raised_before_write \<longrightarrow>
               u' = u \<and> snd (snd (sync_user e al u)) = 1) \<and>
            (\<forall>np. new_proxies e ni u = Inr np \<longrightarrow> dom np = dom ni)"
proof -
  let ?al = "allowed_inbounds configs"
  let ?u = "users ! i"
  let ?ni = "new_inbounds e ?al (inbounds ?u)"
  let ?raised = "case new_proxies e ?ni ?u of
                  Inl err \<Rightarrow> True
                | Inr np \<Rightarrow>
                    (?ni \<noteq> inbounds ?u \<or> np \<noteq> existing_proxies ?u) \<and>
                    update_user_raises e ?u \<lparr>modify_inbounds = ?ni, modify_proxies = np\<rparr>"
  have s: "stored_users (sync_admin e configs users) ! i = fst (sync_user e ?al ?u)"
    using assms by (simp add: stored_users_sync_admin)
  have a: "dom (existing_proxies (fst (sync_user e ?al ?u))) = dom (inbounds (fst (sync_user e ?al ?u)))"
    if "\<not> ?raised"
  proof -
    from sync_user_not_raised_before_write [OF that]
    have i: "inbounds (fst (sync_user e ?al ?u)) = ?ni"
      and p: "new_proxies e ?ni ?u = Inr (existing_proxies (fst (sync_user e ?al ?u)))"
      by simp_all
    from new_proxies_dom [OF p] show ?thesis by (simp add: i)
  qed
  have b: "fst (sync_user e ?al ?u) = ?u \<and> snd (snd (sync_user e ?al ?u)) = 1" if "?raised"
    using sync_user_raised_before_write [OF that] .
  show ?thesis
    unfolding Let_def s
  proof (intro conjI impI allI)
    assume r: "\<not> ?raised"
    from a [OF r]
    show "dom (existing_proxies (fst (sync_user e ?al ?u))) = dom (inbounds (fst (sync_user e ?al ?u)))" .
  next
    assume r: "?raised"
    from b [OF r] show "fst (sync_user e ?al ?u) = ?u" by simp
    from b [OF r] show "snd (snd (sync_user e ?al ?u)) = 1" by simp
  next
    fix np assume "new_proxies e ?ni ?u = Inr np"
    then show "dom np = dom ?ni" by (rule new_proxies_dom)
  qed
qed

text \<open>
  C9. A protocol of the new inbounds that had a settings payload keeps that payload; a
  default payload is constructed exactly for the protocols of the new inbounds that had
  none; a protocol outside the new inbounds has no payload. The stored user carries
  these settings, unless its block raised before anything was written.
\<close>

theorem sync_keeps_existing_settings:
  assumes "new_proxies e (new_inbounds e al (inbounds u)) u = Inr np"
  shows "(\<forall>p s. new_inbounds e al (inbounds u) p \<noteq> None \<and> existing_proxies u p = Some s \<longrightarrow>
            np p = Some s) \<and>
         (\<forall>p. new_inbounds e al (inbounds u) p \<noteq> None \<and> existing_proxies u p = None \<longrightarrow>
            (\<exists>s. default_for e p = Some (Inr s) \<and> np p = Some s)) \<and>
         (\<forall>p. new_inbounds e al (inbounds u) p = None \<longrightarrow> np p = None) \<and>
         (existing_proxies (fst (sync_user e al u)) = np \<or>
          fst (sync_user e al u) = u \<and> snd (snd (sync_user e al u)) = 1)"
proof -
  let ?ni = "new_inbounds e al (inbounds u)"
  note f = assms [unfolded new_proxies_def]
  have a: "np p = Some s" if "?ni p \<noteq> None" "existing_proxies u p = Some s" for p s
    using fill_defaults_keeps [OF f, of p s] that by (simp add: kept_proxies_lookup)
  have b: "\<exists>s. default_for e p = Some (Inr s) \<and> np p = Some s"
    if "?ni p \<noteq> None" "existing_proxies u p = None" for p
    using fill_defaults_filled [OF f, of p] that by (simp add: kept_proxies_lookup set_keys_of)
  have c: "np p = None" if "?ni p = None" for p
    using fill_defaults_lookup [OF f, of p] that by (simp add: kept_proxies_lookup set_keys_of)
  show ?thesis using a b c sync_user_proxies [OF assms] by blast
qed


text \<open>The scenario of the spec, evaluated.\<close>

lemma alice_new_inbounds:
  "new_inbounds env0 (allowed_inbounds policy0) (inbounds alice) = [VMess \<mapsto> [''tag1'', ''tag2'']]"
  by (simp add: ProxyTypes_fun_eq new_inbounds_def carried_inbounds_def allowed_inbounds_def
      policy0_def alice_def env0_def)

lemma alice_new_proxies:
  "new_proxies env0 [VMess \<mapsto> [''tag1'', ''tag2'']] alice = Inr [VMess \<mapsto> ''vmess-alice'']"
  by (simp add: new_proxies_def keys_of_def all_protocols_def kept_proxies_def dict_of_def
      alice_def ProxyTypes_fun_eq)

lemma alice_sync_user:
  "sync_user env0 (allowed_inbounds policy0) alice =
     (alice\<lparr>inbounds := [VMess \<mapsto> [''tag1'', ''tag2'']], proxies := [(VMess, ''vmess-alice'')]\<rparr>,
      [UpdateUser alice \<lparr>modify_inbounds = [VMess \<mapsto> [''tag1'', ''tag2'']],
                         modify_proxies = [VMess \<mapsto> ''vmess-alice'']\<rparr>,
       XrayUpdateUser
         (alice\<lparr>inbounds := [VMess \<mapsto> [''tag1'', ''tag2'']], proxies := [(VMess, ''vmess-alice'')]\<rparr>)],
      0)"
  unfolding sync_user_def try_block_def Let_def alice_new_inbounds alice_new_proxies
  by (simp add: crud_update_user_def proxies_of_dict_def all_protocols_def existing_proxies_def
      dict_of_def ProxyTypes_fun_eq alice_def env0_def)

lemma alice_not_raised:
  "\<not> (case new_proxies env0 (new_inbounds env0 (allowed_inbounds policy0) (inbounds alice)) alice of
        Inl err \<Rightarrow> True
      | Inr np \<Rightarrow>
          (new_inbounds env0 (allowed_inbounds policy0) (inbounds alice) \<noteq> inbounds alice \<or>
           np \<noteq> existing_proxies alice) \<and>
          update_user_raises env0 alice
            \<lparr>modify_inbounds = new_inbounds env0 (allowed_inbounds policy0) (inbounds alice),
             modify_proxies = np\<rparr>)"
  unfolding alice_new_inbounds alice_new_proxies by (simp add: env0_def)

theorem sync_policy_containment_witness:
  "python_set_union (set_union_list env0) \<and> (0::nat) < length [alice] \<and>
   inbounds alice Trojan = Some [''tagX''] \<and>
   \<not> (\<exists>ts. inbounds (stored_users (sync_admin env0 policy0 [alice]) ! 0) Trojan = Some ts \<and>
          ''tagX'' \<in> set ts)"
proof -
  have h: "(0::nat) < length [alice]" by simp
  from sync_policy_containment [OF python_set_union_env0 h, of policy0,
      unfolded Let_def nth_Cons_0] alice_not_raised
  have "\<forall>p ts t. inbounds (stored_users (sync_admin env0 policy0 [alice]) ! 0) p = Some ts \<and>
      t \<in> set ts \<longrightarrow> (\<exists>ibs. policy0 p = Some ibs \<and> t \<in> tag ` set ibs)"
    by blast
  moreover have "policy0 Trojan = None" by (simp add: policy0_def)
  ultimately have "\<not> (\<exists>ts. inbounds (stored_users (sync_admin env0 policy0 [alice]) ! 0) Trojan = Some ts \<and>
          ''tagX'' \<in> set ts)"
    by (metis option.distinct(1))
  moreover have "inbounds alice Trojan = Some [''tagX'']" by (simp add: alice_def)
  ultimately show ?thesis using python_set_union_env0 h by blast
qed

theorem sync_settings_complete_witness:
  "(0::nat) < length [alice] \<and>
   dom (existing_proxies alice) = {VMess, Trojan} \<and>
   dom (inbounds (stored_users (sync_admin env0 policy0 [alice]) ! 0)) = {VMess} \<and>
   dom (existing_proxies (stored_users (sync_admin env0 policy0 [alice]) ! 0)) = {VMess}"
proof -
  have h: "(0::nat) < length [alice]" by simp
  have s: "stored_users (sync_admin env0 policy0 [alice]) ! 0 =
      alice\<lparr>inbounds := [VMess \<mapsto> [''tag1'', ''tag2'']], proxies := [(VMess, ''vmess-alice'')]\<rparr>"
    by (simp add: stored_users_sync_admin alice_sync_user)
  from sync_settings_complete [OF h, where e = env0 and configs = policy0,
      unfolded Let_def nth_Cons_0] alice_not_raised
  have "dom (existing_proxies (stored_users (sync_admin env0 policy0 [alice]) ! 0)) =
      dom (inbounds (stored_users (sync_admin env0 policy0 [alice]) ! 0))"
    by blast
  moreover have "dom (inbounds (stored_users (sync_admin env0 policy0 [alice]) ! 0)) = {VMess}"
    by (simp add: s)
  moreover have "dom (existing_proxies alice) = {VMess, Trojan}"
    by (auto simp: existing_proxies_def dict_of_def alice_def split: if_splits)
  ultimately show ?thesis using h by simp
qed

lemma store_down_alice:
  "sync_user env_store_down (allowed_inbounds policy0) alice =
     (alice,
      [UpdateUser alice \<lparr>modify_inbounds = [VMess \<mapsto> [''tag1'', ''tag2'']],
                         modify_proxies = [VMess \<mapsto> ''vmess-alice'']\<rparr>,
       Rollback],
      1)"
proof -
  have n: "new_inbounds env_store_down (allowed_inbounds policy0) (inbounds alice) =
      [VMess \<mapsto> [''tag1'', ''tag2'']]"
    by (simp add: ProxyTypes_fun_eq new_inbounds_def carried_inbounds_def allowed_inbounds_def
        policy0_def alice_def env_store_down_def env0_def)
  have p: "new_proxies env_store_down [VMess \<mapsto> [''tag1'', ''tag2'']] alice =
      Inr [VMess \<mapsto> ''vmess-alice'']"
    by (simp add: new_proxies_def keys_of_def all_protocols_def kept_proxies_def dict_of_def
        alice_def ProxyTypes_fun_eq)
  show ?thesis
    unfolding sync_user_def try_block_def Let_def n p
    by (simp add: crud_update_user_def existing_proxies_def dict_of_def ProxyTypes_fun_eq
        alice_def env_store_down_def)
qed

lemma store_down_gus:
  "sync_user env_store_down (allowed_inbounds policy0) gus =
     (gus,
      [UpdateUser gus \<lparr>modify_inbounds = [VMess \<mapsto> [''tag1'', ''tag2'']],
                       modify_proxies = [VMess \<mapsto> ''vmess-gus'']\<rparr>,
       Rollback],
      1)"
proof -
  have n: "new_inbounds env_store_down (allowed_inbounds policy0) (inbounds gus) =
      [VMess \<mapsto> [''tag1'', ''tag2'']]"
    by (simp add: ProxyTypes_fun_eq new_inbounds_def carried_inbounds_def allowed_inbounds_def
        policy0_def gus_def env_store_down_def env0_def)
  have p: "new_proxies env_store_down [VMess \<mapsto> [''tag1'', ''tag2'']] gus =
      Inr [VMess \<mapsto> ''vmess-gus'']"
    by (simp add: new_proxies_def keys_of_def all_protocols_def kept_proxies_def dict_of_def
        gus_def ProxyTypes_fun_eq)
  show ?thesis
    unfolding sync_user_def try_block_def Let_def n p
    by (simp add: crud_update_user_def existing_proxies_def dict_of_def ProxyTypes_fun_eq
        gus_def env_store_down_def)
qed

text \<open>
  C2 as it was stated fails for a user whose store update raises: the user keeps a pair
  that the policy does not have.
\<close>

theorem sync_policy_containment_counterexample:
  "unsuccessful (sync_admin env_store_down policy0 [alice]) = 1 \<and>
   inbounds (stored_users (sync_admin env_store_down policy0 [alice]) ! 0) Trojan =
     Some [''tagX''] \<and>
   policy0 Trojan = None"
  by (simp add: sync_admin_single store_down_alice) (simp add: alice_def policy0_def)

text \<open>
  C3 as it was stated fails for a user whose store update raises: the user keeps
  settings for a protocol that is not in its inbounds.
\<close>

theorem sync_settings_complete_counterexample:
  "unsuccessful (sync_admin env_store_down policy0 [gus]) = 1 \<and>
   dom (inbounds (stored_users (sync_admin env_store_down policy0 [gus]) ! 0)) = {VMess} \<and>
   dom (existing_proxies (stored_users (sync_admin env_store_down policy0 [gus]) ! 0)) =
     {VMess, Trojan} \<and>
   dom (existing_proxies (stored_users (sync_admin env_store_down policy0 [gus]) ! 0)) \<noteq>
   dom (inbounds (stored_users (sync_admin env_store_down policy0 [gus]) ! 0))"
proof -
  have s: "stored_users (sync_admin env_store_down policy0 [gus]) ! 0 = gus"
    and k: "unsuccessful (sync_admin env_store_down policy0 [gus]) = 1"
    by (simp_all add: sync_admin_single store_down_gus)
  have i: "dom (inbounds gus) = {VMess}" by (simp add: gus_def)
  have p: "dom (existing_proxies gus) = {VMess, Trojan}"
    by (auto simp: existing_proxies_def dict_of_def gus_def split: if_splits)
  show ?thesis unfolding s using k i p by simp
qed

theorem sync_keeps_existing_settings_witness:
  "new_proxies env0 (new_inbounds env0 (allowed_inbounds policy0) (inbounds alice)) alice =
     Inr [VMess \<mapsto> ''vmess-alice''] \<and>
   existing_proxies alice VMess = Some ''vmess-alice'' \<and>
   existing_proxies (fst (sync_user env0 (allowed_inbounds policy0) alice)) =
     [VMess \<mapsto> ''vmess-alice'']"
proof -
  have k: "snd (snd (sync_user env0 (allowed_inbounds policy0) alice)) = 0"
    by (simp add: alice_sync_user)
  have p: "new_proxies env0 (new_inbounds env0 (allowed_inbounds policy0) (inbounds alice)) alice =
      Inr [VMess \<mapsto> ''vmess-alice'']"
    by (simp add: alice_new_inbounds alice_new_proxies)
  have "existing_proxies alice VMess = Some ''vmess-alice''"
    by (simp add: existing_proxies_def dict_of_def alice_def)
  with sync_keeps_existing_settings [OF p] k p
  show ?thesis by simp
qed

section \<open>The push to the nodes and the handler\<close>

text \<open>
  C7. While one user is processed, \<open>xray.operations.update_user\<close> is called if and only
  if \<open>crud.update_user\<close> was called and returned, and the user's status is active or
  on_hold. A disabled user is never pushed to the nodes, whatever changes.
\<close>

theorem sync_push_gating:
  "let cs = fst (snd (sync_user e al u)) in
     ((\<exists>x. XrayUpdateUser x \<in> set cs) \<longleftrightarrow>
        (\<exists>m. UpdateUser u m \<in> set cs \<and> \<not> update_user_raises e u m \<and>
             (status u = active \<or> status u = on_hold))) \<and>
     (status u = disabled \<longrightarrow> (\<forall>x. XrayUpdateUser x \<notin> set cs))"
proof (cases "new_proxies e (new_inbounds e al (inbounds u)) u")
  case (Inl err)
  show ?thesis by (simp add: sync_user_ctor_raises [OF Inl])
next
  case (Inr np)
  let ?m = "\<lparr>modify_inbounds = new_inbounds e al (inbounds u), modify_proxies = np\<rparr>"
  show ?thesis
  proof (cases "new_inbounds e al (inbounds u) \<noteq> inbounds u \<or> np \<noteq> existing_proxies u")
    case False
    show ?thesis by (simp add: sync_user_no_change [OF Inr False])
  next
    case True
    show ?thesis
    proof (cases "update_user_raises e u ?m")
      case raises: True
      show ?thesis using raises by (auto simp: sync_user_store_raises [OF Inr True raises])
    next
      case ok: False
      show ?thesis using ok
        by (auto simp: sync_user_written [OF Inr True ok] Let_def split: sum.splits)
    qed
  qed
qed

text \<open>
  C10. When the store update has returned and the push to the nodes raises, the handler
  still runs: the rollback is issued and the user is counted as unsuccessful, although the
  user is stored with the new inbounds and proxies. The handler runs for an exception
  raised anywhere in the block.
\<close>

theorem sync_handler_after_persist:
  assumes "new_proxies e (new_inbounds e al (inbounds u)) u = Inr np"
    and "new_inbounds e al (inbounds u) \<noteq> inbounds u \<or> np \<noteq> existing_proxies u"
    and "crud_update_user e u \<lparr>modify_inbounds = new_inbounds e al (inbounds u), modify_proxies = np\<rparr> = Inr u'"
    and "status u' = active \<or> status u' = on_hold"
    and "xray_update_user e u' = Inl err"
  shows "sync_user e al u =
           (u', [UpdateUser u \<lparr>modify_inbounds = new_inbounds e al (inbounds u), modify_proxies = np\<rparr>,
                 XrayUpdateUser u', Rollback], 1) \<and>
         inbounds u' = new_inbounds e al (inbounds u) \<and> existing_proxies u' = np \<and>
         (\<forall>v. snd (try_block e al v) \<noteq> None \<longrightarrow>
              snd (snd (sync_user e al v)) = 1 \<and>
              (\<exists>cs. fst (snd (sync_user e al v)) = cs @ [Rollback]))"
proof -
  have handler: "snd (snd (sync_user e al v)) = 1 \<and>
      (\<exists>cs. fst (snd (sync_user e al v)) = cs @ [Rollback])"
    if "snd (try_block e al v) \<noteq> None" for v
    using that by (cases "try_block e al v") (auto simp: sync_user_def)
  from assms(3) have u': "u' = u\<lparr>inbounds := new_inbounds e al (inbounds u), proxies := proxies_of_dict np\<rparr>"
    and ok: "\<not> update_user_raises e u \<lparr>modify_inbounds = new_inbounds e al (inbounds u), modify_proxies = np\<rparr>"
    by (auto simp: crud_update_user_def split: if_splits)
  from assms(4) have st: "status u = active \<or> status u = on_hold" by (simp add: u')
  have "sync_user e al u =
      (u', [UpdateUser u \<lparr>modify_inbounds = new_inbounds e al (inbounds u), modify_proxies = np\<rparr>,
            XrayUpdateUser u', Rollback], 1) \<and>
      inbounds u' = new_inbounds e al (inbounds u) \<and> existing_proxies u' = np"
    using assms(5) st
    by (simp add: sync_user_written [OF assms(1,2) ok] Let_def u' [symmetric] if_P)
      (simp add: u' existing_proxies_def dict_of_proxies_of_dict)
  with handler show ?thesis by blast
qed


text \<open>A disabled user whose inbounds change, and a push that raises.\<close>

lemma bob_new_inbounds:
  "new_inbounds env0 (allowed_inbounds policy0) (inbounds bob) = [VMess \<mapsto> [''tag1'', ''tag2'']]"
  by (simp add: ProxyTypes_fun_eq new_inbounds_def carried_inbounds_def allowed_inbounds_def
      policy0_def bob_def)

lemma bob_new_proxies:
  "new_proxies env0 [VMess \<mapsto> [''tag1'', ''tag2'']] bob = Inr [VMess \<mapsto> ''vmess-default'']"
  by (simp add: new_proxies_def keys_of_def all_protocols_def kept_proxies_def dict_of_def
      default_for_def bob_def env0_def)

lemma bob_sync_user:
  "sync_user env0 (allowed_inbounds policy0) bob =
     (bob\<lparr>inbounds := [VMess \<mapsto> [''tag1'', ''tag2'']], proxies := [(VMess, ''vmess-default'')]\<rparr>,
      [UpdateUser bob \<lparr>modify_inbounds = [VMess \<mapsto> [''tag1'', ''tag2'']],
                       modify_proxies = [VMess \<mapsto> ''vmess-default'']\<rparr>],
      0)"
  unfolding sync_user_def try_block_def Let_def bob_new_inbounds bob_new_proxies
  by (simp add: crud_update_user_def proxies_of_dict_def all_protocols_def existing_proxies_def
      dict_of_def ProxyTypes_fun_eq bob_def env0_def)

theorem sync_push_gating_witness:
  "status bob = disabled \<and>
   (\<exists>m. UpdateUser bob m \<in> set (fst (snd (sync_user env0 (allowed_inbounds policy0) bob)))) \<and>
   (\<forall>x. XrayUpdateUser x \<notin> set (fst (snd (sync_user env0 (allowed_inbounds policy0) bob)))) \<and>
   status alice = active \<and>
   (\<exists>x. XrayUpdateUser x \<in> set (fst (snd (sync_user env0 (allowed_inbounds policy0) alice))))"
proof -
  have d: "status bob = disabled" by (simp add: bob_def)
  have a: "status alice = active" by (simp add: alice_def)
  have w: "\<exists>m. UpdateUser bob m \<in> set (fst (snd (sync_user env0 (allowed_inbounds policy0) bob)))"
    by (simp add: bob_sync_user)
  have r: "\<not> update_user_raises env0 alice m" for m by (simp add: env0_def)
  have "\<exists>m. UpdateUser alice m \<in> set (fst (snd (sync_user env0 (allowed_inbounds policy0) alice)))"
    by (simp add: alice_sync_user)
  with sync_push_gating [of env0 "allowed_inbounds policy0" alice, unfolded Let_def] a r
  have "\<exists>x. XrayUpdateUser x \<in> set (fst (snd (sync_user env0 (allowed_inbounds policy0) alice)))"
    by blast
  with sync_push_gating [of env0 "allowed_inbounds policy0" bob, unfolded Let_def] d a w
  show ?thesis by blast
qed

lemma alice_push_fails_new_inbounds:
  "new_inbounds env_push_fails (allowed_inbounds policy0) (inbounds alice) =
     [VMess \<mapsto> [''tag1'', ''tag2'']]"
  by (simp add: ProxyTypes_fun_eq new_inbounds_def carried_inbounds_def allowed_inbounds_def
      policy0_def alice_def env_push_fails_def env0_def)

lemma alice_push_fails_new_proxies:
  "new_proxies env_push_fails [VMess \<mapsto> [''tag1'', ''tag2'']] alice =
     Inr [VMess \<mapsto> ''vmess-alice'']"
  by (simp add: new_proxies_def keys_of_def all_protocols_def kept_proxies_def dict_of_def
      alice_def ProxyTypes_fun_eq)

theorem sync_handler_after_persist_witness:
  "sync_user env_push_fails (allowed_inbounds policy0) alice =
     (alice\<lparr>inbounds := [VMess \<mapsto> [''tag1'', ''tag2'']], proxies := [(VMess, ''vmess-alice'')]\<rparr>,
      [UpdateUser alice \<lparr>modify_inbounds = [VMess \<mapsto> [''tag1'', ''tag2'']],
                         modify_proxies = [VMess \<mapsto> ''vmess-alice'']\<rparr>,
       XrayUpdateUser
         (alice\<lparr>inbounds := [VMess \<mapsto> [''tag1'', ''tag2'']], proxies := [(VMess, ''vmess-alice'')]\<rparr>),
       Rollback],
      1) \<and>
   existing_proxies
     (alice\<lparr>inbounds := [VMess \<mapsto> [''tag1'', ''tag2'']], proxies := [(VMess, ''vmess-alice'')]\<rparr>) =
     [VMess \<mapsto> ''vmess-alice'']"
proof -
  let ?ni = "new_inbounds env_push_fails (allowed_inbounds policy0) (inbounds alice)"
  let ?a' = "alice\<lparr>inbounds := [VMess \<mapsto> [''tag1'', ''tag2'']], proxies := [(VMess, ''vmess-alice'')]\<rparr>"
  have p: "new_proxies env_push_fails ?ni alice = Inr [VMess \<mapsto> ''vmess-alice'']"
    by (simp add: alice_push_fails_new_inbounds alice_push_fails_new_proxies)
  have c: "?ni \<noteq> inbounds alice \<or> [VMess \<mapsto> ''vmess-alice''] \<noteq> existing_proxies alice"
    unfolding alice_push_fails_new_inbounds by (simp add: ProxyTypes_fun_eq alice_def)
  have u: "crud_update_user env_push_fails alice
      \<lparr>modify_inbounds = ?ni, modify_proxies = [VMess \<mapsto> ''vmess-alice'']\<rparr> = Inr ?a'"
    unfolding alice_push_fails_new_inbounds
    by (simp add: crud_update_user_def proxies_of_dict_def all_protocols_def env_push_fails_def
        env0_def)
  have s: "status ?a' = active \<or> status ?a' = on_hold" by (simp add: alice_def)
  have x: "xray_update_user env_push_fails ?a' = Inl NodeError"
    by (simp add: env_push_fails_def)
  from sync_handler_after_persist [OF p c u s x]
  show ?thesis by (simp add: alice_push_fails_new_inbounds)
qed

section \<open>The report\<close>

lemma sum_list_single:
  fixes xs :: "int list"
  assumes "j < length xs" and "xs ! j = 1" and "\<forall>i<length xs. i \<noteq> j \<longrightarrow> xs ! i = 0"
  shows "sum_list xs = 1"
proof -
  have "sum_list xs = (\<Sum>i = 0..<length xs. xs ! i)"
    by (rule sum_list_sum_nth)
  also have "\<dots> = (\<Sum>i = 0..<length xs. if i = j then 1 else 0)"
    using assms(2,3) by (intro sum.cong) auto
  also have "\<dots> = 1"
    using assms(1) by simp
  finally show ?thesis .
qed

lemma total_sync_admin: "total (sync_admin e configs users) = int (length users)"
  by (simp add: sync_admin_def split: prod.splits)

lemma success_sync_admin:
  "success (sync_admin e configs users) =
     int (length users) - unsuccessful (sync_admin e configs users)"
  by (simp add: sync_admin_def split: prod.splits)

lemma concat_map_split:
  assumes "j < length xs"
  shows "concat (map f xs) =
     concat (map f (take j xs)) @ f (xs ! j) @ concat (map f (drop (Suc j) xs))"
proof -
  have "concat (map f xs) = concat (map f (take j xs @ xs ! j # drop (Suc j) xs))"
    using id_take_nth_drop [OF assms] by (rule arg_cong)
  then show ?thesis by simp
qed


text \<open>
  C5. When the store update of exactly one of the \<open>N\<close> users raises and no other
  user's block raises, that user stays stored as it was and the rollback follows the
  failed update; the loop goes on, every other user is stored with its new inbounds and
  proxies, and the report is \<open>total = N\<close>, \<open>unsuccessful = 1\<close>, \<open>success = N - 1\<close>.
\<close>

theorem sync_isolation:
  assumes "j < length users"
    and "new_proxies e (new_inbounds e (allowed_inbounds configs) (inbounds (users ! j)))
           (users ! j) = Inr np"
    and "new_inbounds e (allowed_inbounds configs) (inbounds (users ! j)) \<noteq> inbounds (users ! j) \<or>
         np \<noteq> existing_proxies (users ! j)"
    and "update_user_raises e (users ! j)
           \<lparr>modify_inbounds = new_inbounds e (allowed_inbounds configs) (inbounds (users ! j)),
            modify_proxies = np\<rparr>"
    and "\<forall>i<length users. i \<noteq> j \<longrightarrow>
           snd (try_block e (allowed_inbounds configs) (users ! i)) = None"
  shows "let r = sync_admin e configs users; al = allowed_inbounds configs in
           total r = int (length users) \<and> unsuccessful r = 1 \<and>
           success r = int (length users) - 1 \<and>
           stored_users r ! j = users ! j \<and>
           (\<exists>before after.
              calls r = before @
                [UpdateUser (users ! j)
                   \<lparr>modify_inbounds = new_inbounds e al (inbounds (users ! j)),
                    modify_proxies = np\<rparr>,
                 Rollback] @ after) \<and>
           (\<forall>i<length users. i \<noteq> j \<longrightarrow>
              inbounds (stored_users r ! i) = new_inbounds e al (inbounds (users ! i)) \<and>
              new_proxies e (new_inbounds e al (inbounds (users ! i))) (users ! i) =
                Inr (existing_proxies (stored_users r ! i)))"
proof -
  let ?al = "allowed_inbounds configs"
  let ?r = "sync_admin e configs users"
  let ?m = "\<lparr>modify_inbounds = new_inbounds e ?al (inbounds (users ! j)), modify_proxies = np\<rparr>"
  let ?k = "\<lambda>u. snd (snd (sync_user e ?al u))"
  let ?c = "\<lambda>u. fst (snd (sync_user e ?al u))"
  note uj = sync_user_store_raises [OF assms(2,3,4)]
  have ok: "?k (users ! i) = 0" if "i < length users" "i \<noteq> j" for i
  proof -
    from assms(5) that have "snd (try_block e ?al (users ! i)) = None" by blast
    then show ?thesis by (cases "try_block e ?al (users ! i)") (auto simp: sync_user_def)
  qed
  have st: "stored_users ?r ! i = fst (sync_user e ?al (users ! i))" if "i < length users" for i
    using that by (simp add: stored_users_sync_admin)
  have un: "unsuccessful ?r = 1"
    unfolding unsuccessful_sync_admin
  proof (rule sum_list_single [where j = j])
    show "j < length (map ?k users)" using assms(1) by simp
    show "map ?k users ! j = 1" using assms(1) by (simp add: uj)
    show "\<forall>i<length (map ?k users). i \<noteq> j \<longrightarrow> map ?k users ! i = 0"
      using ok by simp
  qed
  have sj: "stored_users ?r ! j = users ! j"
    using st [OF assms(1)] by (simp add: uj)
  have cl: "\<exists>before after. calls ?r = before @ [UpdateUser (users ! j) ?m, Rollback] @ after"
  proof -
    have "calls ?r = concat (map ?c (take j users)) @ ?c (users ! j) @
        concat (map ?c (drop (Suc j) users))"
      unfolding calls_sync_admin by (rule concat_map_split [OF assms(1)])
    also have "?c (users ! j) = [UpdateUser (users ! j) ?m, Rollback]"
      by (simp add: uj)
    finally show ?thesis by blast
  qed
  have others: "inbounds (stored_users ?r ! i) = new_inbounds e ?al (inbounds (users ! i)) \<and>
      new_proxies e (new_inbounds e ?al (inbounds (users ! i))) (users ! i) =
        Inr (existing_proxies (stored_users ?r ! i))"
    if "i < length users" "i \<noteq> j" for i
  proof -
    from sync_user_unchanged_or_patched [of e ?al "users ! i"] ok [OF that]
    have "inbounds (fst (sync_user e ?al (users ! i))) = new_inbounds e ?al (inbounds (users ! i)) \<and>
        new_proxies e (new_inbounds e ?al (inbounds (users ! i))) (users ! i) =
          Inr (existing_proxies (fst (sync_user e ?al (users ! i))))"
      by auto
    then show ?thesis by (simp only: st [OF that(1)])
  qed
  have su: "success ?r = int (length users) - 1"
    by (simp only: success_sync_admin un)
  show ?thesis
    unfolding Let_def using total_sync_admin [of e configs users] un su sj cl others by blast
qed


text \<open>Three users, of which the store rejects the second.\<close>

lemma store_fails_new_inbounds:
  "new_inbounds env_store_fails (allowed_inbounds policy0) (inbounds alice) =
     [VMess \<mapsto> [''tag1'', ''tag2'']]"
  "new_inbounds env_store_fails (allowed_inbounds policy0) (inbounds bob) =
     [VMess \<mapsto> [''tag1'', ''tag2'']]"
  "new_inbounds env_store_fails (allowed_inbounds policy0) (inbounds carol) =
     [VMess \<mapsto> [''tag1'', ''tag2'']]"
  by (simp_all add: ProxyTypes_fun_eq new_inbounds_def carried_inbounds_def allowed_inbounds_def
      policy0_def alice_def bob_def carol_def env_store_fails_def env0_def)

lemma store_fails_new_proxies:
  "new_proxies env_store_fails [VMess \<mapsto> [''tag1'', ''tag2'']] alice =
     Inr [VMess \<mapsto> ''vmess-alice'']"
  "new_proxies env_store_fails [VMess \<mapsto> [''tag1'', ''tag2'']] bob =
     Inr [VMess \<mapsto> ''vmess-default'']"
  "new_proxies env_store_fails [VMess \<mapsto> [''tag1'', ''tag2'']] carol =
     Inr [VMess \<mapsto> ''vmess-default'']"
  by (simp_all add: new_proxies_def keys_of_def all_protocols_def kept_proxies_def dict_of_def
      default_for_def alice_def bob_def carol_def env_store_fails_def env0_def ProxyTypes_fun_eq)

lemma store_fails_try_block:
  "snd (try_block env_store_fails (allowed_inbounds policy0) alice) = None"
  "snd (try_block env_store_fails (allowed_inbounds policy0) carol) = None"
  unfolding try_block_def Let_def store_fails_new_inbounds store_fails_new_proxies
  by (simp_all add: crud_update_user_def existing_proxies_def dict_of_def ProxyTypes_fun_eq
      alice_def carol_def env_store_fails_def env0_def)

theorem sync_isolation_witness:
  "(1::nat) < length [alice, bob, carol] \<and>
   update_user_raises env_store_fails bob
     \<lparr>modify_inbounds = [VMess \<mapsto> [''tag1'', ''tag2'']],
      modify_proxies = [VMess \<mapsto> ''vmess-default'']\<rparr> \<and>
   total (sync_admin env_store_fails policy0 [alice, bob, carol]) = 3 \<and>
   unsuccessful (sync_admin env_store_fails policy0 [alice, bob, carol]) = 1 \<and>
   success (sync_admin env_store_fails policy0 [alice, bob, carol]) = 2 \<and>
   stored_users (sync_admin env_store_fails policy0 [alice, bob, carol]) ! 1 = bob \<and>
   inbounds (stored_users (sync_admin env_store_fails policy0 [alice, bob, carol]) ! 0) =
     [VMess \<mapsto> [''tag1'', ''tag2'']] \<and>
   inbounds (stored_users (sync_admin env_store_fails policy0 [alice, bob, carol]) ! 2) =
     [VMess \<mapsto> [''tag1'', ''tag2'']]"
proof -
  let ?users = "[alice, bob, carol]"
  let ?al = "allowed_inbounds policy0"
  have j: "(1::nat) < length ?users" by simp
  have p: "new_proxies env_store_fails (new_inbounds env_store_fails ?al (inbounds (?users ! 1)))
      (?users ! 1) = Inr [VMess \<mapsto> ''vmess-default'']"
    by (simp add: store_fails_new_inbounds store_fails_new_proxies)
  have c: "new_inbounds env_store_fails ?al (inbounds (?users ! 1)) \<noteq> inbounds (?users ! 1) \<or>
      [VMess \<mapsto> ''vmess-default''] \<noteq> existing_proxies (?users ! 1)"
    by (simp add: store_fails_new_inbounds) (simp add: ProxyTypes_fun_eq bob_def)
  have r0: "update_user_raises env_store_fails bob
      \<lparr>modify_inbounds = [VMess \<mapsto> [''tag1'', ''tag2'']],
       modify_proxies = [VMess \<mapsto> ''vmess-default'']\<rparr>"
    by (simp add: env_store_fails_def bob_def)
  then have r: "update_user_raises env_store_fails (?users ! 1)
      \<lparr>modify_inbounds = new_inbounds env_store_fails ?al (inbounds (?users ! 1)),
       modify_proxies = [VMess \<mapsto> ''vmess-default'']\<rparr>"
    by (simp add: store_fails_new_inbounds)
  have o: "\<forall>i<length ?users. i \<noteq> 1 \<longrightarrow> snd (try_block env_store_fails ?al (?users ! i)) = None"
    by (simp add: All_less_Suc store_fails_try_block)
  from sync_isolation [OF j p c r o, unfolded Let_def]
  have "total (sync_admin env_store_fails policy0 ?users) = int (length ?users)"
    and "unsuccessful (sync_admin env_store_fails policy0 ?users) = 1"
    and "success (sync_admin env_store_fails policy0 ?users) = int (length ?users) - 1"
    and "stored_users (sync_admin env_store_fails policy0 ?users) ! 1 = ?users ! 1"
    and "\<forall>i<length ?users. i \<noteq> 1 \<longrightarrow>
      inbounds (stored_users (sync_admin env_store_fails policy0 ?users) ! i) =
        new_inbounds env_store_fails ?al (inbounds (?users ! i))"
    by blast+
  then show ?thesis using j r0
    by (simp add: All_less_Suc store_fails_new_inbounds numeral_2_eq_2)
qed

section \<open>Two calls in succession\<close>

text \<open>
  A user without inbounds is synced twice with the same policy, the store holding after
  the first call what that call wrote. The first call assigns the tag list of the policy
  as it stands; the second call assigns the list of a set.
\<close>

lemma python_set_union_env_hash: "python_set_union (set_union_list env_hash)"
  by (simp add: python_set_union_def env_hash_def env0_def)

lemma env_hash_first:
  "sync_user env_hash (allowed_inbounds policy0) bob =
     (bob\<lparr>inbounds := [VMess \<mapsto> [''tag1'', ''tag2'']], proxies := [(VMess, ''vmess-default'')]\<rparr>,
      [UpdateUser bob \<lparr>modify_inbounds = [VMess \<mapsto> [''tag1'', ''tag2'']],
                       modify_proxies = [VMess \<mapsto> ''vmess-default'']\<rparr>],
      0)"
proof -
  have n: "new_inbounds env_hash (allowed_inbounds policy0) (inbounds bob) =
      [VMess \<mapsto> [''tag1'', ''tag2'']]"
    by (simp add: ProxyTypes_fun_eq new_inbounds_def carried_inbounds_def allowed_inbounds_def
        policy0_def bob_def)
  have p: "new_proxies env_hash [VMess \<mapsto> [''tag1'', ''tag2'']] bob =
      Inr [VMess \<mapsto> ''vmess-default'']"
    by (simp add: new_proxies_def keys_of_def all_protocols_def kept_proxies_def dict_of_def
        default_for_def bob_def env_hash_def env0_def)
  show ?thesis
    unfolding sync_user_def try_block_def Let_def n p
    by (simp add: crud_update_user_def proxies_of_dict_def all_protocols_def existing_proxies_def
        dict_of_def ProxyTypes_fun_eq bob_def env_hash_def env0_def)
qed

lemma env_hash_second:
  "sync_user env_hash (allowed_inbounds policy0)
     (bob\<lparr>inbounds := [VMess \<mapsto> [''tag1'', ''tag2'']], proxies := [(VMess, ''vmess-default'')]\<rparr>) =
     (bob\<lparr>inbounds := [VMess \<mapsto> [''tag2'', ''tag1'']], proxies := [(VMess, ''vmess-default'')]\<rparr>,
      [UpdateUser
         (bob\<lparr>inbounds := [VMess \<mapsto> [''tag1'', ''tag2'']], proxies := [(VMess, ''vmess-default'')]\<rparr>)
         \<lparr>modify_inbounds = [VMess \<mapsto> [''tag2'', ''tag1'']],
          modify_proxies = [VMess \<mapsto> ''vmess-default'']\<rparr>],
      0)"
proof -
  let ?b = "bob\<lparr>inbounds := [VMess \<mapsto> [''tag1'', ''tag2'']], proxies := [(VMess, ''vmess-default'')]\<rparr>"
  have n: "new_inbounds env_hash (allowed_inbounds policy0) (inbounds ?b) =
      [VMess \<mapsto> [''tag2'', ''tag1'']]"
    by (simp add: ProxyTypes_fun_eq new_inbounds_def carried_inbounds_def allowed_inbounds_def
        policy0_def env_hash_def env0_def)
  have p: "new_proxies env_hash [VMess \<mapsto> [''tag2'', ''tag1'']] ?b =
      Inr [VMess \<mapsto> ''vmess-default'']"
    by (simp add: new_proxies_def keys_of_def all_protocols_def kept_proxies_def dict_of_def
        default_for_def ProxyTypes_fun_eq)
  show ?thesis
    unfolding sync_user_def try_block_def Let_def n p
    by (simp add: crud_update_user_def proxies_of_dict_def all_protocols_def existing_proxies_def
        dict_of_def ProxyTypes_fun_eq bob_def env_hash_def env0_def)
qed

lemma dup_first:
  "sync_user env0 (allowed_inbounds policy_dup) bob =
     (bob\<lparr>inbounds := [VMess \<mapsto> [''tag1'', ''tag1'']], proxies := [(VMess, ''vmess-default'')]\<rparr>,
      [UpdateUser bob \<lparr>modify_inbounds = [VMess \<mapsto> [''tag1'', ''tag1'']],
                       modify_proxies = [VMess \<mapsto> ''vmess-default'']\<rparr>],
      0)"
proof -
  have n: "new_inbounds env0 (allowed_inbounds policy_dup) (inbounds bob) =
      [VMess \<mapsto> [''tag1'', ''tag1'']]"
    by (simp add: ProxyTypes_fun_eq new_inbounds_def carried_inbounds_def allowed_inbounds_def
        policy_dup_def bob_def)
  have p: "new_proxies env0 [VMess \<mapsto> [''tag1'', ''tag1'']] bob =
      Inr [VMess \<mapsto> ''vmess-default'']"
    by (simp add: new_proxies_def keys_of_def all_protocols_def kept_proxies_def dict_of_def
        default_for_def bob_def env0_def)
  show ?thesis
    unfolding sync_user_def try_block_def Let_def n p
    by (simp add: crud_update_user_def proxies_of_dict_def all_protocols_def existing_proxies_def
        dict_of_def ProxyTypes_fun_eq bob_def env0_def)
qed

lemma dup_second:
  "sync_user env0 (allowed_inbounds policy_dup)
     (bob\<lparr>inbounds := [VMess \<mapsto> [''tag1'', ''tag1'']], proxies := [(VMess, ''vmess-default'')]\<rparr>) =
     (bob\<lparr>inbounds := [VMess \<mapsto> [''tag1'']], proxies := [(VMess, ''vmess-default'')]\<rparr>,
      [UpdateUser
         (bob\<lparr>inbounds := [VMess \<mapsto> [''tag1'', ''tag1'']], proxies := [(VMess, ''vmess-default'')]\<rparr>)
         \<lparr>modify_inbounds = [VMess \<mapsto> [''tag1'']],
          modify_proxies = [VMess \<mapsto> ''vmess-default'']\<rparr>],
      0)"
proof -
  let ?b = "bob\<lparr>inbounds := [VMess \<mapsto> [''tag1'', ''tag1'']], proxies := [(VMess, ''vmess-default'')]\<rparr>"
  have n: "new_inbounds env0 (allowed_inbounds policy_dup) (inbounds ?b) =
      [VMess \<mapsto> [''tag1'']]"
    by (simp add: ProxyTypes_fun_eq new_inbounds_def carried_inbounds_def allowed_inbounds_def
        policy_dup_def env0_def)
  have p: "new_proxies env0 [VMess \<mapsto> [''tag1'']] ?b =
      Inr [VMess \<mapsto> ''vmess-default'']"
    by (simp add: new_proxies_def keys_of_def all_protocols_def kept_proxies_def dict_of_def
        default_for_def ProxyTypes_fun_eq)
  show ?thesis
    unfolding sync_user_def try_block_def Let_def n p
    by (simp add: crud_update_user_def proxies_of_dict_def all_protocols_def existing_proxies_def
        dict_of_def ProxyTypes_fun_eq bob_def env0_def)
qed

text \<open>
  C4. The claim is that the second of two calls with the same policy writes nothing. It
  does write: with the policy \<open>{VMess: [tag1, tag2]}\<close> where the set is listed as
  \<open>[tag2, tag1]\<close>, and with the policy \<open>{VMess: [tag1, tag1]}\<close> in every order, the
  comparison \<open>new_inbounds != user.inbounds\<close> of line 251 finds the lists different,
  and \<open>crud.update_user\<close> is called on the second call. Nothing fails in either call.
\<close>

theorem sync_twice_writes_again:
  "python_set_union (set_union_list env_hash) \<and>
   unsuccessful (sync_admin env_hash policy0 [bob]) = 0 \<and>
   unsuccessful
     (sync_admin env_hash policy0 (stored_users (sync_admin env_hash policy0 [bob]))) = 0 \<and>
   calls (sync_admin env_hash policy0 (stored_users (sync_admin env_hash policy0 [bob]))) =
     [UpdateUser
        (bob\<lparr>inbounds := [VMess \<mapsto> [''tag1'', ''tag2'']],
             proxies := [(VMess, ''vmess-default'')]\<rparr>)
        \<lparr>modify_inbounds = [VMess \<mapsto> [''tag2'', ''tag1'']],
         modify_proxies = [VMess \<mapsto> ''vmess-default'']\<rparr>] \<and>
   python_set_union (set_union_list env0) \<and>
   unsuccessful (sync_admin env0 policy_dup [bob]) = 0 \<and>
   calls (sync_admin env0 policy_dup (stored_users (sync_admin env0 policy_dup [bob]))) =
     [UpdateUser
        (bob\<lparr>inbounds := [VMess \<mapsto> [''tag1'', ''tag1'']],
             proxies := [(VMess, ''vmess-default'')]\<rparr>)
        \<lparr>modify_inbounds = [VMess \<mapsto> [''tag1'']],
         modify_proxies = [VMess \<mapsto> ''vmess-default'']\<rparr>]"
  by (simp add: python_set_union_env_hash python_set_union_env0 sync_admin_single
      env_hash_first env_hash_second dup_first dup_second)

text \<open>The second case does not depend on the order in which Python lists a set.\<close>

lemma duplicate_tags_never_stable:
  assumes "python_set_union (set_union_list e)"
  shows "new_inbounds e (allowed_inbounds policy_dup) [VMess \<mapsto> [''tag1'', ''tag1'']] \<noteq>
         [VMess \<mapsto> [''tag1'', ''tag1'']]"
proof
  assume eq: "new_inbounds e (allowed_inbounds policy_dup) [VMess \<mapsto> [''tag1'', ''tag1'']] =
      [VMess \<mapsto> [''tag1'', ''tag1'']]"
  have "new_inbounds e (allowed_inbounds policy_dup) [VMess \<mapsto> [''tag1'', ''tag1'']] VMess =
      Some (set_union_list e [''tag1'', ''tag1''] [''tag1'', ''tag1''])"
    by (simp add: new_inbounds_def carried_inbounds_def allowed_inbounds_def policy_dup_def)
  with eq have "set_union_list e [''tag1'', ''tag1''] [''tag1'', ''tag1''] = [''tag1'', ''tag1'']"
    by simp
  moreover from assms have "distinct (set_union_list e [''tag1'', ''tag1''] [''tag1'', ''tag1''])"
    by (simp add: python_set_union_def)
  ultimately show False by simp
qed

section \<open>Properties of the bulk status operations\<close>

lemma restart_node_fields:
  "fleet_calls (restart_node fe i cfg w) = fleet_calls w @ [RestartNode i cfg]"
  "core_config (restart_node fe i cfg w) = core_config w"
  "db (restart_node fe i cfg w) = db w"
  "node_configs (restart_node fe i cfg w) =
     (if node_restart_fails fe i cfg then node_configs w else (node_configs w)(i \<mapsto> cfg))"
  "node_errors (restart_node fe i cfg w) =
     (if node_restart_fails fe i cfg then node_errors w @ [i] else node_errors w)"
  "node_objects (restart_node fe i cfg w) =
     snd (node_events fe i cfg (xray_nodes w, node_objects w))"
  by (simp_all add: restart_node_def split: prod.splits)

lemma restart_connected_nodes_append:
  "restart_connected_nodes fe cfg (xs @ ys) w =
     restart_connected_nodes fe cfg ys (restart_connected_nodes fe cfg xs w)"
  by (induction xs arbitrary: w) auto

lemma restart_connected_nodes_core:
  "core_config (restart_connected_nodes fe cfg nodes w) = core_config w"
  "db (restart_connected_nodes fe cfg nodes w) = db w"
  by (induction nodes arbitrary: w) (auto simp: restart_node_fields)

lemma restart_connected_nodes_keeps_config:
  "node_configs w i = Some cfg \<Longrightarrow>
   node_configs (restart_connected_nodes fe cfg nodes w) i = Some cfg"
proof (induction nodes arbitrary: w)
  case Nil
  then show ?case by simp
next
  case (Cons x nodes)
  obtain k ref where x: "x = (k, ref)" by (cases x)
  have "node_configs (restart_node fe k cfg w) i = Some cfg"
    using Cons.prems by (simp add: restart_node_fields)
  then show ?case
    unfolding x using Cons.prems by (simp add: Cons.IH)
qed




lemma restart_connected_nodes_flags:
  assumes "flags_stable fe"
  shows "connected (node_objects (restart_connected_nodes fe cfg nodes w) ref) =
         connected (node_objects w ref)"
proof (induction nodes arbitrary: w)
  case Nil
  show ?case by simp
next
  case (Cons x nodes)
  obtain k r where x: "x = (k, r)" by (cases x)
  have "connected (node_objects (restart_node fe k cfg w) ref) = connected (node_objects w ref)"
    using assms by (simp add: restart_node_fields flags_stable_def)
  then show ?case unfolding x by (simp add: Cons.IH)
qed

lemma restart_node_flags:
  assumes "flags_stable fe"
  shows "connected (node_objects (restart_node fe k cfg w) ref) = connected (node_objects w ref)"
  using assms by (simp add: restart_node_fields flags_stable_def)


lemma restart_connected_nodes_errors_stable:
  assumes "flags_stable fe"
  shows "node_errors (restart_connected_nodes fe cfg nodes w) =
     node_errors w @
     map fst (filter (\<lambda>(i, ref). connected (node_objects w ref) \<and> node_restart_fails fe i cfg)
                nodes)"
proof (induction nodes arbitrary: w)
  case Nil
  show ?case by simp
next
  case (Cons x nodes)
  obtain k r where x: "x = (k, r)" by (cases x)
  show ?case
    unfolding x
    by (cases "connected (node_objects w r)"; cases "node_restart_fails fe k cfg")
      (simp_all add: Cons.IH restart_node_fields(5) restart_node_flags [OF assms])
qed

lemma restart_connected_nodes_configs_at_turn:
  assumes "k < length snap"
    and "connected (node_objects (restart_connected_nodes fe cfg (take k snap) w) (snd (snap ! k)))"
    and "\<not> node_restart_fails fe (fst (snap ! k)) cfg"
  shows "node_configs (restart_connected_nodes fe cfg snap w) (fst (snap ! k)) = Some cfg"
proof -
  obtain i ref where x: "snap ! k = (i, ref)" by (cases "snap ! k")
  let ?wk = "restart_connected_nodes fe cfg (take k snap) w"
  have "snap = take k snap @ [(i, ref)] @ drop (Suc k) snap"
    using id_take_nth_drop [OF assms(1)] by (simp add: x)
  then have "restart_connected_nodes fe cfg snap w =
      restart_connected_nodes fe cfg (drop (Suc k) snap)
        (restart_connected_nodes fe cfg [(i, ref)] ?wk)"
    by (metis restart_connected_nodes_append)
  moreover have "restart_connected_nodes fe cfg [(i, ref)] ?wk = restart_node fe i cfg ?wk"
    using assms(2) by (simp add: x)
  moreover have "node_configs (restart_node fe i cfg ?wk) i = Some cfg"
    using assms(3) by (simp add: x restart_node_fields)
  ultimately show ?thesis
    by (simp add: x restart_connected_nodes_keeps_config)
qed

lemma restart_connected_nodes_configs_stable:
  assumes "flags_stable fe"
    and "(i, ref) \<in> set snap" and "connected (node_objects w ref)"
    and "\<not> node_restart_fails fe i cfg"
  shows "node_configs (restart_connected_nodes fe cfg snap w) i = Some cfg"
proof -
  from assms(2) obtain k where k: "k < length snap" "snap ! k = (i, ref)"
    by (auto simp: in_set_conv_nth)
  have "connected (node_objects (restart_connected_nodes fe cfg (take k snap) w) (snd (snap ! k)))"
    using assms(3) by (simp add: k restart_connected_nodes_flags [OF assms(1)])
  from restart_connected_nodes_configs_at_turn [OF k(1) this] assms(4)
  show ?thesis by (simp add: k)
qed


lemma rebuild_and_restart_all_ok:
  assumes "include_db_users fe (db w) = Inr cfg" and "core_restart fe cfg = Inr ()"
  shows "rebuild_and_restart_all fe w =
     (None, restart_connected_nodes fe cfg (xray_nodes w)
        (w\<lparr>core_config := Some cfg,
           fleet_calls := fleet_calls w @ [IncludeDbUsers, CoreRestart cfg]\<rparr>))"
  by (simp add: rebuild_and_restart_all_def assms)

lemma rebuild_and_restart_all_core_raises:
  assumes "include_db_users fe (db w) = Inr cfg" and "core_restart fe cfg = Inl err"
  shows "rebuild_and_restart_all fe w =
     (Some err, w\<lparr>fleet_calls := fleet_calls w @ [IncludeDbUsers, CoreRestart cfg]\<rparr>)"
  by (simp add: rebuild_and_restart_all_def assms)

lemma disable_all_active_users_ok:
  assumes "crud_disable_all_active_users fe (db w) = Inr db1"
    and "include_db_users fe db1 = Inr cfg" and "core_restart fe cfg = Inr ()"
  shows "disable_all_active_users fe w =
     (Inr ''Users successfully disabled'',
      restart_connected_nodes fe cfg (xray_nodes w)
        (w\<lparr>db := db1, core_config := Some cfg,
           fleet_calls := fleet_calls w @ [DisableAllActiveUsers, IncludeDbUsers, CoreRestart cfg]\<rparr>))"
proof -
  let ?w1 = "w\<lparr>db := db1, fleet_calls := fleet_calls w @ [DisableAllActiveUsers]\<rparr>"
  have i: "include_db_users fe (db ?w1) = Inr cfg" using assms(2) by simp
  show ?thesis
    by (simp add: disable_all_active_users_def assms(1) rebuild_and_restart_all_ok [OF i assms(3)])
qed





text \<open>
  C6. When the restart of the local core raises, the request ends with that exception
  and no node is restarted. When it returns, the request succeeds whatever the nodes do:
  every node found connected at its turn whose restart does not fail runs the new
  configuration; when the nodes stay as they are, these are the connected nodes of the
  registry, and the nodes whose restart fails are recorded.
\<close>

theorem node_failure_not_fatal:
  assumes "crud_disable_all_active_users fe (db w) = Inr db1"
    and "include_db_users fe db1 = Inr cfg"
  shows "(\<forall>err. core_restart fe cfg = Inl err \<longrightarrow>
            (let r = disable_all_active_users fe w in
               fst r = Inl err \<and> core_config (snd r) = core_config w \<and>
               node_configs (snd r) = node_configs w \<and>
               fleet_calls (snd r) =
                 fleet_calls w @ [DisableAllActiveUsers, IncludeDbUsers, CoreRestart cfg])) \<and>
         (core_restart fe cfg = Inr () \<longrightarrow>
            (let r = disable_all_active_users fe w;
                 snap = xray_nodes w;
                 w1 = w\<lparr>db := db1, core_config := Some cfg,
                        fleet_calls := fleet_calls w @
                          [DisableAllActiveUsers, IncludeDbUsers, CoreRestart cfg]\<rparr>
             in fst r = Inr ''Users successfully disabled'' \<and>
                core_config (snd r) = Some cfg \<and>
                (\<forall>k<length snap.
                   connected (node_objects (restart_connected_nodes fe cfg (take k snap) w1)
                                (snd (snap ! k))) \<and>
                   \<not> node_restart_fails fe (fst (snap ! k)) cfg \<longrightarrow>
                   node_configs (snd r) (fst (snap ! k)) = Some cfg) \<and>
                (flags_stable fe \<longrightarrow>
                   (\<forall>i ref. (i, ref) \<in> set snap \<and> connected (node_objects w ref) \<and>
                       \<not> node_restart_fails fe i cfg \<longrightarrow>
                       node_configs (snd r) i = Some cfg) \<and>
                   node_errors (snd r) =
                     node_errors w @
                     map fst (filter (\<lambda>(i, ref). connected (node_objects w ref) \<and>
                                          node_restart_fails fe i cfg) snap))))"
proof (intro conjI allI impI)
  let ?w0 = "w\<lparr>db := db1, fleet_calls := fleet_calls w @ [DisableAllActiveUsers]\<rparr>"
  have i: "include_db_users fe (db ?w0) = Inr cfg" using assms(2) by simp
  {
    fix err assume c: "core_restart fe cfg = Inl err"
    show "let r = disable_all_active_users fe w in
               fst r = Inl err \<and> core_config (snd r) = core_config w \<and>
               node_configs (snd r) = node_configs w \<and>
               fleet_calls (snd r) =
                 fleet_calls w @ [DisableAllActiveUsers, IncludeDbUsers, CoreRestart cfg]"
      by (simp add: disable_all_active_users_def assms(1)
          rebuild_and_restart_all_core_raises [OF i c])
  }
  {
    assume c: "core_restart fe cfg = Inr ()"
    let ?w1 = "w\<lparr>db := db1, core_config := Some cfg,
        fleet_calls := fleet_calls w @ [DisableAllActiveUsers, IncludeDbUsers, CoreRestart cfg]\<rparr>"
    let ?R = "restart_connected_nodes fe cfg (xray_nodes w) ?w1"
    note r = disable_all_active_users_ok [OF assms c]
    have o: "node_objects ?w1 = node_objects w" and e: "node_errors ?w1 = node_errors w"
      by simp_all
    have turn: "node_configs ?R (fst (xray_nodes w ! k)) = Some cfg"
      if "k < length (xray_nodes w)"
        "connected (node_objects (restart_connected_nodes fe cfg (take k (xray_nodes w)) ?w1)
           (snd (xray_nodes w ! k))) \<and>
         \<not> node_restart_fails fe (fst (xray_nodes w ! k)) cfg" for k
      using restart_connected_nodes_configs_at_turn [OF that(1), of fe cfg ?w1] that(2) by blast
    have stable: "node_configs ?R i = Some cfg"
      if "flags_stable fe" "(i, ref) \<in> set (xray_nodes w) \<and> connected (node_objects w ref) \<and>
          \<not> node_restart_fails fe i cfg" for i ref
      using restart_connected_nodes_configs_stable [OF that(1), of i ref "xray_nodes w" ?w1 cfg]
        that(2) o by simp
    have errs: "node_errors ?R = node_errors w @
        map fst (filter (\<lambda>(i, ref). connected (node_objects w ref) \<and>
                             node_restart_fails fe i cfg) (xray_nodes w))"
      if "flags_stable fe"
      using restart_connected_nodes_errors_stable [OF that, of cfg "xray_nodes w" ?w1]
      unfolding o e .
    show "let r = disable_all_active_users fe w;
                 snap = xray_nodes w;
                 w1 = w\<lparr>db := db1, core_config := Some cfg,
                        fleet_calls := fleet_calls w @
                          [DisableAllActiveUsers, IncludeDbUsers, CoreRestart cfg]\<rparr>
             in fst r = Inr ''Users successfully disabled'' \<and>
                core_config (snd r) = Some cfg \<and>
                (\<forall>k<length snap.
                   connected (node_objects (restart_connected_nodes fe cfg (take k snap) w1)
                                (snd (snap ! k))) \<and>
                   \<not> node_restart_fails fe (fst (snap ! k)) cfg \<longrightarrow>
                   node_configs (snd r) (fst (snap ! k)) = Some cfg) \<and>
                (flags_stable fe \<longrightarrow>
                   (\<forall>i ref. (i, ref) \<in> set snap \<and> connected (node_objects w ref) \<and>
                       \<not> node_restart_fails fe i cfg \<longrightarrow>
                       node_configs (snd r) i = Some cfg) \<and>
                   node_errors (snd r) =
                     node_errors w @
                     map fst (filter (\<lambda>(i, ref). connected (node_objects w ref) \<and>
                                          node_restart_fails fe i cfg) snap))"
      unfolding Let_def r fst_conv snd_conv
      using turn stable errs by (simp add: restart_connected_nodes_core) blast
  }
qed


text \<open>The fleets and the collaborators of the concrete inputs.\<close>

lemma flags_stable_fleet_env0: "flags_stable fleet_env0"
  by (simp add: flags_stable_def fleet_env0_def)

lemma fleet3_fields:
  "db fleet3 = [alice, bob, carol]" "db fleet4 = [alice, bob, carol]"
  "xray_nodes fleet3 = [(1, 101), (2, 102), (3, 103)]"
  "xray_nodes fleet4 = [(1, 101), (2, 102), (3, 103), (4, 104)]"
  "fleet_calls fleet3 = []" "fleet_calls fleet4 = []"
  "node_errors fleet3 = []"
  "connected (node_objects fleet3 ref)"
  "connected (node_objects fleet4 ref) \<longleftrightarrow> ref \<noteq> 104"
  by (simp_all add: fleet3_def fleet4_def)

lemma fleet_env0_disable:
  "crud_disable_all_active_users fleet_env0 [alice, bob, carol] =
     Inr [alice\<lparr>status := disabled\<rparr>, bob, carol\<lparr>status := disabled\<rparr>]"
  "include_db_users fleet_env0 [alice\<lparr>status := disabled\<rparr>, bob, carol\<lparr>status := disabled\<rparr>] =
     Inr []"
  "core_restart fleet_env0 [] = Inr ()"
  by (simp_all add: fleet_env0_def alice_def bob_def carol_def)





theorem node_failure_not_fatal_witness:
  "flags_stable fleet_env0 \<and> node_restart_fails fleet_env0 2 [] \<and>
   fst (disable_all_active_users fleet_env0 fleet3) = Inr ''Users successfully disabled'' \<and>
   core_config (snd (disable_all_active_users fleet_env0 fleet3)) = Some [] \<and>
   node_configs (snd (disable_all_active_users fleet_env0 fleet3)) 1 = Some [] \<and>
   node_configs (snd (disable_all_active_users fleet_env0 fleet3)) 3 = Some [] \<and>
   node_errors (snd (disable_all_active_users fleet_env0 fleet3)) = [2] \<and>
   fst (disable_all_active_users fleet_env_core_fails fleet3) = Inl CoreError \<and>
   fleet_calls (snd (disable_all_active_users fleet_env_core_fails fleet3)) =
     [DisableAllActiveUsers, IncludeDbUsers, CoreRestart []]"
proof -
  let ?r = "disable_all_active_users fleet_env0 fleet3"
  let ?db1 = "[alice\<lparr>status := disabled\<rparr>, bob, carol\<lparr>status := disabled\<rparr>]"
  have f: "node_restart_fails fleet_env0 i cfg \<longleftrightarrow> i = 2" for i cfg
    by (simp add: fleet_env0_def)
  have d0: "crud_disable_all_active_users fleet_env0 (db fleet3) = Inr ?db1"
    by (simp add: fleet3_fields fleet_env0_disable)
  from node_failure_not_fatal [OF d0 fleet_env0_disable(2), THEN conjunct2, unfolded Let_def]
    fleet_env0_disable(3) flags_stable_fleet_env0
  have ok: "fst ?r = Inr ''Users successfully disabled''"
    and cc: "core_config (snd ?r) = Some []"
    and nc: "\<forall>i ref. (i, ref) \<in> set (xray_nodes fleet3) \<and> connected (node_objects fleet3 ref) \<and>
        \<not> node_restart_fails fleet_env0 i [] \<longrightarrow> node_configs (snd ?r) i = Some []"
    and ne: "node_errors (snd ?r) =
        node_errors fleet3 @
        map fst (filter (\<lambda>(i, ref). connected (node_objects fleet3 ref) \<and>
                             node_restart_fails fleet_env0 i []) (xray_nodes fleet3))"
    by blast+
  have n1: "node_configs (snd ?r) 1 = Some []"
    using nc [rule_format, of 1 101] by (simp add: fleet3_fields f)
  have n3: "node_configs (snd ?r) 3 = Some []"
    using nc [rule_format, of 3 103] by (simp add: fleet3_fields f)
  have e: "node_errors (snd ?r) = [2]"
    using ne by (simp add: fleet3_fields f)
  have d: "crud_disable_all_active_users fleet_env_core_fails (db fleet3) = Inr ?db1"
    and i: "include_db_users fleet_env_core_fails ?db1 = Inr []"
    and c: "core_restart fleet_env_core_fails [] = Inl CoreError"
    using d0 fleet_env0_disable(2) by (simp_all add: fleet_env_core_fails_def)
  from node_failure_not_fatal [OF d i, THEN conjunct1, rule_format, OF c, unfolded Let_def]
  have "fst (disable_all_active_users fleet_env_core_fails fleet3) = Inl CoreError"
    and "fleet_calls (snd (disable_all_active_users fleet_env_core_fails fleet3)) =
      fleet_calls fleet3 @ [DisableAllActiveUsers, IncludeDbUsers, CoreRestart []]"
    by blast+
  then show ?thesis using ok cc n1 n3 e flags_stable_fleet_env0
    by (simp add: f fleet3_fields)
qed

end
